theory Spec2Isabelle
  imports Main "HOL-Library.Word"
begin

unbundle bit_operations_syntax

section \<open>Bytes, words and the outcome of a call\<close>

text \<open>
  The model fixes the LP64 data model of the platforms the resolver is written for:
  \<open>void *\<close> and \<open>size_t\<close> are 64 bits wide, \<open>int\<close> and \<open>socklen_t\<close> 32 bits, and
  both processes (the caller and the forked worker) share one byte order, taken to be
  little endian.
\<close>

type_synonym byte = "8 word"

fun le_bytes :: "nat \<Rightarrow> nat \<Rightarrow> byte list" where
  "le_bytes 0 v = []"
| "le_bytes (Suc n) v = of_nat (v mod 256) # le_bytes n (v div 256)"

fun le_val :: "byte list \<Rightarrow> nat" where
  "le_val [] = 0"
| "le_val (b # bs) = unat b + 256 * le_val bs"

definition word_le :: "64 word \<Rightarrow> byte list" where
  "word_le w = le_bytes 8 (unat w)"

definition le_word :: "byte list \<Rightarrow> 64 word" where
  "le_word bs = of_nat (le_val bs)"

definition int_le :: "32 word \<Rightarrow> byte list" where
  "int_le w = le_bytes 4 (unat w)"

definition le_int :: "byte list \<Rightarrow> 32 word" where
  "le_int bs = of_nat (le_val bs)"

text \<open>
  \<open>fatal(msg)\<close> prints the message and ends the process with \<open>EXIT_FAILURE\<close>.
  \<open>Undefined\<close> marks an execution that leaves defined C behaviour (reading an
  unterminated string past its array, dereferencing a pointer to no object).
\<close>

datatype 'a outcome = Returned 'a | Fatal string | Undefined

definition bnd :: "'a outcome \<Rightarrow> ('a \<Rightarrow> 'b outcome) \<Rightarrow> 'b outcome" where
  "bnd m f = (case m of Returned x \<Rightarrow> f x | Fatal msg \<Rightarrow> Fatal msg | Undefined \<Rightarrow> Undefined)"

section \<open>Pipes and the \<open>read\<close>/\<open>write\<close> system calls\<close>

text \<open>
  A pipe is the queue of bytes in flight. What the kernel does at each \<open>read\<close> and each
  \<open>write\<close> call is not the program's choice, so it is a schedule: the next call either
  fails with an \<open>errno\<close>, or moves at most \<open>k\<close> bytes (\<open>Xfer k\<close>). Once a schedule is
  used up the kernel serves every call in full. A \<open>read\<close> that finds the pipe empty
  returns 0, which is what a reader sees at end of file. A pipe holds any number of
  bytes: its capacity, and with it a writer that waits for room, is left out.
\<close>

datatype errno = EINTR | EAGAIN | EBADF | EIO | EPIPE

datatype sysev = Xfer nat | Errno errno

record pipe =
  bytes :: "byte list"
  rd_sched :: "sysev list"
  wr_sched :: "sysev list"

record sysret =
  ret :: int
  err :: "errno option"
  xfer :: "byte list"

definition sys_read :: "pipe \<Rightarrow> nat \<Rightarrow> sysret \<times> pipe" where
  "sys_read pp count =
     (case rd_sched pp of
        [] \<Rightarrow>
          (let d = take count (bytes pp)
           in (\<lparr>ret = int (length d), err = None, xfer = d\<rparr>,
               pp\<lparr>bytes := drop (length d) (bytes pp)\<rparr>))
      | Xfer k # es \<Rightarrow>
          (let d = take (min k count) (bytes pp)
           in (\<lparr>ret = int (length d), err = None, xfer = d\<rparr>,
               pp\<lparr>bytes := drop (length d) (bytes pp), rd_sched := es\<rparr>))
      | Errno e # es \<Rightarrow>
          (\<lparr>ret = - 1, err = Some e, xfer = []\<rparr>, pp\<lparr>rd_sched := es\<rparr>))"

definition sys_write :: "pipe \<Rightarrow> byte list \<Rightarrow> sysret \<times> pipe" where
  "sys_write pp src =
     (case wr_sched pp of
        [] \<Rightarrow>
          (\<lparr>ret = int (length src), err = None, xfer = src\<rparr>,
           pp\<lparr>bytes := bytes pp @ src\<rparr>)
      | Xfer k # es \<Rightarrow>
          (let d = take k src
           in (\<lparr>ret = int (length d), err = None, xfer = d\<rparr>,
               pp\<lparr>bytes := bytes pp @ d, wr_sched := es\<rparr>))
      | Errno e # es \<Rightarrow>
          (\<lparr>ret = - 1, err = Some e, xfer = []\<rparr>, pp\<lparr>wr_sched := es\<rparr>))"

text \<open>Memory written at offset \<open>off\<close> of a buffer.\<close>

definition store :: "byte list \<Rightarrow> nat \<Rightarrow> byte list \<Rightarrow> byte list" where
  "store buf off d = take off buf @ d @ drop (off + length d) buf"

text \<open>
  The loop condition of \<open>fd_read\<close> and \<open>fd_write\<close>:
  \<open>ret || ((ret < 0) && (errno == EINTR || errno == EAGAIN))\<close>.
\<close>

definition again :: "int \<Rightarrow> errno option \<Rightarrow> bool" where
  "again r e = (r \<noteq> 0 \<or> (r < 0 \<and> (e = Some EINTR \<or> e = Some EAGAIN)))"

lemma sys_read_decr:
  assumes "again (ret (fst (sys_read pp n))) (err (fst (sys_read pp n)))"
  shows "length (rd_sched (snd (sys_read pp n)))
           + min (n - nat (ret (fst (sys_read pp n)))) (length (bytes (snd (sys_read pp n))))
         < length (rd_sched pp) + min n (length (bytes pp))"
proof (cases "rd_sched pp")
  case Nil
  with assms show ?thesis
    by (cases "bytes pp") (auto simp add: sys_read_def again_def Let_def min_def split: if_splits)
next
  case (Cons ev es)
  show ?thesis
  proof (cases ev)
    case (Xfer k)
    with Cons show ?thesis
      by (simp add: sys_read_def Let_def) arith
  next
    case (Errno e)
    with Cons show ?thesis
      by (simp add: sys_read_def)
  qed
qed

function fd_read_loop ::
  "pipe \<Rightarrow> byte list \<Rightarrow> nat \<Rightarrow> nat \<Rightarrow> nat \<Rightarrow> int \<Rightarrow> (byte list \<times> pipe) outcome" where
  "fd_read_loop pp buf sz off todo r =
     (let r0 = (if r < 0 then 0 else r);
          off1 = off + nat r0
      in if off1 = sz then
           (if r0 < 0 then Fatal ''fd_read'' else Returned (buf, pp))
         else
           (let todo1 = todo - nat r0;
                s = sys_read pp todo1;
                buf1 = store buf off1 (xfer (fst s))
            in if again (ret (fst s)) (err (fst s)) then
                 fd_read_loop (snd s) buf1 sz off1 todo1 (ret (fst s))
               else if ret (fst s) < 0 then Fatal ''fd_read''
               else Returned (buf1, snd s)))"
  by pat_completeness auto
termination
proof (relation "measure (\<lambda>(pp, buf, sz, off, todo, r).
          length (rd_sched pp) + min (todo - nat r) (length (bytes pp)))", goal_cases)
  case 1
  show ?case by simp
next
  case (2 pp buf sz off todo r r0 off1 todo1 s buf1)
  have e: "nat r0 = nat r" using 2(1) by simp
  have t: "todo1 = todo - nat r" using 2(4) e by simp
  have "again (ret (fst (sys_read pp todo1))) (err (fst (sys_read pp todo1)))"
    using 2(5,7) by simp
  from sys_read_decr [OF this] show ?case
    by (simp only: 2(5) t in_measure prod.case)
qed

definition fd_read :: "pipe \<Rightarrow> byte list \<Rightarrow> nat \<Rightarrow> (byte list \<times> pipe) outcome" where
  "fd_read pp buf sz = fd_read_loop pp buf sz 0 sz 0"

lemma sys_write_decr:
  assumes "again (ret (fst (sys_write pp (take n (drop off buf)))))
                 (err (fst (sys_write pp (take n (drop off buf)))))"
  shows "length (wr_sched (snd (sys_write pp (take n (drop off buf)))))
           + min (n - nat (ret (fst (sys_write pp (take n (drop off buf))))))
                 (length buf - (off + nat (ret (fst (sys_write pp (take n (drop off buf)))))))
         < length (wr_sched pp) + min n (length buf - off)"
proof (cases "wr_sched pp")
  case Nil
  with assms show ?thesis
    by (auto simp add: sys_write_def again_def Let_def min_def split: if_splits)
next
  case (Cons ev es)
  show ?thesis
  proof (cases ev)
    case (Xfer k)
    with Cons show ?thesis
      by (simp add: sys_write_def Let_def) arith
  next
    case (Errno e)
    with Cons show ?thesis
      by (simp add: sys_write_def)
  qed
qed

function fd_write_loop ::
  "pipe \<Rightarrow> byte list \<Rightarrow> nat \<Rightarrow> nat \<Rightarrow> nat \<Rightarrow> int \<Rightarrow> pipe outcome" where
  "fd_write_loop pp buf sz off todo r =
     (let r0 = (if r < 0 then 0 else r);
          off1 = off + nat r0
      in if off1 = sz then
           (if r0 < 0 then Fatal ''fd_write'' else Returned pp)
         else
           (let todo1 = todo - nat r0;
                s = sys_write pp (take todo1 (drop off1 buf))
            in if again (ret (fst s)) (err (fst s)) then
                 fd_write_loop (snd s) buf sz off1 todo1 (ret (fst s))
               else if ret (fst s) < 0 then Fatal ''fd_write''
               else Returned (snd s)))"
  by pat_completeness auto
termination
proof (relation "measure (\<lambda>(pp, buf, sz, off, todo, r).
          length (wr_sched pp) + min (todo - nat r) (length buf - (off + nat r)))", goal_cases)
  case 1
  show ?case by simp
next
  case (2 pp buf sz off todo r r0 off1 todo1 s)
  have e: "nat r0 = nat r" using 2(1) by simp
  have t: "todo1 = todo - nat r" using 2(4) e by simp
  have o: "off1 = off + nat r" using 2(2) e by simp
  have "again (ret (fst (sys_write pp (take todo1 (drop off1 buf)))))
              (err (fst (sys_write pp (take todo1 (drop off1 buf)))))"
    using 2(5,6) by simp
  from sys_write_decr [OF this] show ?case
    by (simp only: 2(5) t o in_measure prod.case)
qed

definition fd_write :: "pipe \<Rightarrow> byte list \<Rightarrow> nat \<Rightarrow> pipe outcome" where
  "fd_write pp buf sz = fd_write_loop pp buf sz 0 sz 0"

section \<open>Strings and \<open>struct addrinfo\<close>\<close>

text \<open>
  A C string argument is the memory its pointer refers to; \<open>strlen\<close> counts the bytes
  before the first NUL. Reading a string out of an array that holds no NUL runs past the
  array.
\<close>

definition strlen :: "byte list \<Rightarrow> nat" where
  "strlen s = length (takeWhile (\<lambda>b. b \<noteq> 0) s)"

definition c_string :: "byte list \<Rightarrow> byte list option" where
  "c_string buf = (if 0 \<in> set buf then Some (takeWhile (\<lambda>b. b \<noteq> 0) buf) else None)"

record addrinfo =
  ai_flags :: "32 word"
  ai_family :: "32 word"
  ai_socktype :: "32 word"
  ai_protocol :: "32 word"
  ai_addrlen :: "32 word"
  ai_pad :: "32 word"
  ai_addr :: "64 word"
  ai_canonname :: "64 word"
  ai_next :: "64 word"

text \<open>
  The object representation of \<open>struct addrinfo\<close> (\<open>sizeof\<close> 48): five 32-bit fields,
  four bytes of padding, three pointers. The worker writes the object as it stands in
  memory and the caller reads it back the same way, so the padding bytes travel with the
  members and may hold anything: \<open>ai_pad\<close> is these four bytes (offsets 20 to 23), which
  belong to the object though to none of its members. Every 48 bytes are the
  representation of exactly one such value.
\<close>

definition ai_bytes :: "addrinfo \<Rightarrow> byte list" where
  "ai_bytes a = int_le (ai_flags a) @ int_le (ai_family a) @ int_le (ai_socktype a)
       @ int_le (ai_protocol a) @ int_le (ai_addrlen a) @ int_le (ai_pad a)
       @ word_le (ai_addr a) @ word_le (ai_canonname a) @ word_le (ai_next a)"

definition bytes_ai :: "byte list \<Rightarrow> addrinfo" where
  "bytes_ai b = \<lparr>ai_flags = le_int (take 4 b), ai_family = le_int (take 4 (drop 4 b)),
       ai_socktype = le_int (take 4 (drop 8 b)), ai_protocol = le_int (take 4 (drop 12 b)),
       ai_addrlen = le_int (take 4 (drop 16 b)), ai_pad = le_int (take 4 (drop 20 b)),
       ai_addr = le_word (take 8 (drop 24 b)),
       ai_canonname = le_word (take 8 (drop 32 b)), ai_next = le_word (take 8 (drop 40 b))\<rparr>"

text \<open>
  What \<open>getaddrinfo\<close> hands back: an error code, or the nodes of its result list in
  order, each with the socket address \<open>ai_addr\<close> points to. The lookup itself belongs to
  the platform and is a parameter of the worker.
\<close>

type_synonym ainode = "addrinfo \<times> byte list"

datatype gai_result = GaiError int | GaiOk "ainode list"

type_synonym lookup = "byte list \<Rightarrow> byte list \<Rightarrow> addrinfo \<Rightarrow> gai_result"

section \<open>The worker: \<open>resolver\<close>\<close>

text \<open>
  The locals \<open>ptr\<close>, \<open>host_len\<close> and \<open>port_len\<close> are declared outside the loop, so they
  keep their bytes from one iteration to the next; \<open>host\<close> and \<open>port\<close> are cleared at
  the top of every iteration.
\<close>

record worker =
  fd_in :: pipe
  fd_out :: pipe
  ptr :: "64 word"
  host_len :: "64 word"
  port_len :: "64 word"

text \<open>
  The fixed lookup policy: \<open>AI_PASSIVE\<close> (1), \<open>AF_INET\<close> (2), \<open>SOCK_STREAM\<close> (1), any
  protocol, everything else zero.
\<close>

definition hints :: addrinfo where
  "hints = \<lparr>ai_flags = 1, ai_family = 2, ai_socktype = 1, ai_protocol = 0,
             ai_addrlen = 0, ai_pad = 0, ai_addr = 0, ai_canonname = 0, ai_next = 0\<rparr>"

text \<open>
  The body of the loop in two halves: \<open>recv_request\<close> is everything up to the last
  \<open>fd_read\<close> and yields the arrays \<open>host\<close> and \<open>port\<close>; \<open>send_response\<close> is everything
  from the first \<open>fd_write\<close> on, for the list \<open>res\<close> the lookup left.
\<close>

definition recv_request :: "worker \<Rightarrow> (worker \<times> byte list \<times> byte list) outcome" where
  "recv_request w =
     (let host = replicate 4096 0;
          port = replicate 5 0
      in bnd (fd_read (fd_in w) (word_le (ptr w)) 8) (\<lambda>(b, i).
         let w = w\<lparr>fd_in := i, ptr := le_word b\<rparr>
         in bnd (fd_read (fd_in w) (word_le (host_len w)) 8) (\<lambda>(b, i).
            let w = w\<lparr>fd_in := i, host_len := le_word b\<rparr>
            in if unat (host_len w) > 4096 then Fatal ''invalid host_len''
               else bnd (fd_read (fd_in w) host (unat (host_len w))) (\<lambda>(host, i).
                    let w = w\<lparr>fd_in := i\<rparr>
                    in bnd (fd_read (fd_in w) (word_le (port_len w)) 8) (\<lambda>(b, i).
                       let w = w\<lparr>fd_in := i, port_len := le_word b\<rparr>
                       in if unat (port_len w) > 5 then Fatal ''invalid port_len''
                          else bnd (fd_read (fd_in w) port (unat (port_len w))) (\<lambda>(port, i).
                               Returned (w\<lparr>fd_in := i\<rparr>, host, port)))))))"

fun count_results :: "ainode list \<Rightarrow> 64 word \<Rightarrow> 64 word" where
  "count_results [] n = n"
| "count_results (rp # rest) n = count_results rest (n + 1)"

fun write_results :: "pipe \<Rightarrow> ainode list \<Rightarrow> pipe outcome" where
  "write_results out [] = Returned out"
| "write_results out (rp # rest) =
     bnd (fd_write out (ai_bytes (fst rp)) 48) (\<lambda>out.
     bnd (fd_write out (snd rp) (unat (ai_addrlen (fst rp)))) (\<lambda>out.
     write_results out rest))"

definition send_response :: "worker \<Rightarrow> ainode list \<Rightarrow> worker outcome" where
  "send_response w res =
     bnd (fd_write (fd_out w) (word_le (ptr w)) 8) (\<lambda>out.
     let nrresults = count_results res 0
     in bnd (fd_write out (word_le nrresults) 8) (\<lambda>out.
        bnd (write_results out res) (\<lambda>out.
        Returned (w\<lparr>fd_out := out\<rparr>))))"

text \<open>
  One iteration of the \<open>for (;;)\<close> loop. \<open>res\<close> is set to \<open>NULL\<close> before the call and
  \<open>getaddrinfo\<close> stores a list only when it succeeds; its return value is assigned to
  \<open>ret\<close> and not looked at again.
\<close>

definition resolver_step :: "lookup \<Rightarrow> worker \<Rightarrow> worker outcome" where
  "resolver_step gai w =
     bnd (recv_request w) (\<lambda>(w, host, port).
       case c_string host of None \<Rightarrow> Undefined
       | Some h \<Rightarrow>
          (case c_string port of None \<Rightarrow> Undefined
           | Some p \<Rightarrow>
              (let res = (case gai h p hints of GaiError e \<Rightarrow> [] | GaiOk rs \<Rightarrow> rs)
               in send_response w res)))"

text \<open>The loop never ends by itself; \<open>resolver n\<close> is its first \<open>n\<close> iterations.\<close>

fun resolver :: "nat \<Rightarrow> lookup \<Rightarrow> worker \<Rightarrow> worker outcome" where
  "resolver 0 gai w = Returned w"
| "resolver (Suc n) gai w = bnd (resolver_step gai w) (resolver n gai)"

section \<open>The caller's side\<close>

definition resolve :: "pipe \<Rightarrow> 64 word \<Rightarrow> byte list \<Rightarrow> byte list \<Rightarrow> pipe outcome" where
  "resolve fd p host port =
     bnd (fd_write fd (word_le p) 8) (\<lambda>fd.
     let len = (of_nat (strlen host) :: 64 word)
     in bnd (fd_write fd (word_le len) 8) (\<lambda>fd.
        bnd (fd_write fd host (unat len)) (\<lambda>fd.
        let len = (of_nat (strlen port) :: 64 word)
        in bnd (fd_write fd (word_le len) 8) (\<lambda>fd.
           fd_write fd port (unat len)))))"

text \<open>
  The caller's process: the four file-scope variables, the file status flags of its open
  descriptors (what \<open>fcntl\<close> reads and writes), and its heap. Heap objects are kept as
  their bytes. \<open>arena\<close> lists the pointers the next calls of \<open>malloc\<close> return, \<open>0\<close>
  being \<open>NULL\<close>; when it is used up \<open>malloc\<close> fails.
\<close>

record client =
  started :: bool
  child :: int
  fd :: int
  fdres :: int
  flags :: "int \<rightharpoonup> 32 word"
  heap :: "64 word \<rightharpoonup> byte list"
  arena :: "64 word list"

definition O_RDONLY :: "32 word" where
  "O_RDONLY = 0"

definition O_WRONLY :: "32 word" where
  "O_WRONLY = 1"

definition O_NONBLOCK :: "32 word" where
  "O_NONBLOCK = 0x800"

definition fcntl_getfl :: "client \<Rightarrow> int \<Rightarrow> 32 word" where
  "fcntl_getfl c d = (case flags c d of None \<Rightarrow> - 1 | Some f \<Rightarrow> f)"

definition fcntl_setfl :: "client \<Rightarrow> int \<Rightarrow> 32 word \<Rightarrow> client" where
  "fcntl_setfl c d f = (case flags c d of None \<Rightarrow> c | Some old \<Rightarrow> c\<lparr>flags := (flags c)(d \<mapsto> f)\<rparr>)"

definition fd_setnonblock :: "client \<Rightarrow> int \<Rightarrow> client" where
  "fd_setnonblock c d =
     (let fl = fcntl_getfl c d;
          fl = fl OR O_NONBLOCK
      in fcntl_setfl c d fl)"

definition fd_setblock :: "client \<Rightarrow> int \<Rightarrow> client" where
  "fd_setblock c d =
     (let fl = fcntl_getfl c d;
          fl = fl AND NOT O_NONBLOCK
      in fcntl_setfl c d fl)"

definition nonblocking :: "client \<Rightarrow> int \<Rightarrow> bool" where
  "nonblocking c d = (case flags c d of None \<Rightarrow> False | Some f \<Rightarrow> f AND O_NONBLOCK \<noteq> 0)"

definition xmalloc :: "client \<Rightarrow> nat \<Rightarrow> (64 word \<times> client) outcome" where
  "xmalloc c sz =
     (case arena c of
        [] \<Rightarrow> Fatal ''malloc''
      | p # ps \<Rightarrow>
          if p = 0 then Fatal ''malloc''
          else Returned (p, c\<lparr>arena := ps, heap := (heap c)(p \<mapsto> replicate sz 0)\<rparr>))"

definition peek :: "client \<Rightarrow> 64 word \<Rightarrow> byte list outcome" where
  "peek c p = (case heap c p of None \<Rightarrow> Undefined | Some b \<Rightarrow> Returned b)"

definition put :: "client \<Rightarrow> 64 word \<Rightarrow> byte list \<Rightarrow> client" where
  "put c p b = c\<lparr>heap := (heap c)(p \<mapsto> b)\<rparr>"

definition poke :: "client \<Rightarrow> 64 word \<Rightarrow> nat \<Rightarrow> byte list \<Rightarrow> client outcome" where
  "poke c p off v = bnd (peek c p) (\<lambda>b. Returned (put c p (store b off v)))"

text \<open>
  The loop of \<open>resolve_result\<close>. Offsets 16, 24 and 40 are those of \<open>ai_addrlen\<close>,
  \<open>ai_addr\<close> and \<open>ai_next\<close> in \<open>struct addrinfo\<close>.
\<close>

function rr_loop ::
  "nat \<Rightarrow> nat \<Rightarrow> client \<Rightarrow> pipe \<Rightarrow> 64 word \<Rightarrow> 64 word
     \<Rightarrow> (client \<times> pipe \<times> 64 word \<times> 64 word) outcome" where
  "rr_loop nrresults i c pp first lastp =
     (if i < nrresults then
        bnd (xmalloc c 48) (\<lambda>(rp, c).
        bnd (if i = 0 then Returned (c, rp, rp)
             else bnd (poke c lastp 40 (word_le rp)) (\<lambda>c. Returned (c, first, rp)))
          (\<lambda>(c, first, lastp).
        bnd (peek c rp) (\<lambda>obj.
        bnd (fd_read pp obj 48) (\<lambda>(obj, pp).
        let c = put c rp obj;
            addrlen = unat (ai_addrlen (bytes_ai obj))
        in bnd (xmalloc c addrlen) (\<lambda>(a, c).
           bnd (poke c rp 24 (word_le a)) (\<lambda>c.
           bnd (peek c a) (\<lambda>blob.
           bnd (fd_read pp blob addrlen) (\<lambda>(blob, pp).
           rr_loop nrresults (Suc i) (put c a blob) pp first lastp))))))))
      else Returned (c, pp, first, lastp))"
  by pat_completeness auto
termination
  by (relation "measure (\<lambda>(nrresults, i, c, pp, first, lastp). nrresults - i)") auto

text \<open>
  \<open>resolve_result\<close> on the pipe \<open>_fdres\<close> is open on. \<open>ret\<close> is not initialised; \<open>junk\<close>
  is what it holds on entry. The result is \<open>*p\<close> and \<open>*r\<close>.
\<close>

definition resolve_result ::
  "client \<Rightarrow> pipe \<Rightarrow> 64 word \<Rightarrow> (client \<times> pipe \<times> 64 word \<times> 64 word) outcome" where
  "resolve_result c pp junk =
     (let c = fd_setblock c (fdres c);
          nrresults = (0 :: 64 word)
      in bnd (fd_read pp (word_le junk) 8) (\<lambda>(b, pp).
         let ret = le_word b
         in bnd (fd_read pp (word_le nrresults) 8) (\<lambda>(b, pp).
            let nrresults = le_word b
            in bnd (rr_loop (unat nrresults) 0 c pp 0 0) (\<lambda>(c, pp, first, lastp).
               bnd (if lastp \<noteq> 0 then poke c lastp 40 (word_le 0) else Returned c) (\<lambda>c.
               Returned (fd_setnonblock c (fdres c), pp, ret, first))))))"

section \<open>Starting the worker\<close>

text \<open>
  The worker's own process: whether an alarm is pending, or the status it exited with.
  \<open>signal\<close> keeps a handler installed across deliveries.
\<close>

datatype wstatus = Running bool | Exited int

text \<open>
  \<open>pipe\<close> and \<open>fork\<close> are answered by the kernel: \<open>p1\<close> and \<open>p2\<close> are the descriptor pairs
  the two \<open>pipe\<close> calls store (\<open>None\<close> when the call fails), \<open>pid\<close> is what \<open>fork\<close>
  returns. A new pipe's descriptors are open read-only and write-only with
  \<open>O_NONBLOCK\<close> clear.
\<close>

definition pipe_open :: "client \<Rightarrow> int \<times> int \<Rightarrow> client" where
  "pipe_open c fds = c\<lparr>flags := (flags c)(fst fds \<mapsto> O_RDONLY, snd fds \<mapsto> O_WRONLY)\<rparr>"

datatype started = InParent int client | InChild int int wstatus

definition resolver_start ::
  "client \<Rightarrow> (int \<times> int) option \<Rightarrow> (int \<times> int) option \<Rightarrow> int \<Rightarrow> started outcome" where
  "resolver_start c p1 p2 pid =
     (if started c then Fatal ''resolver already started''
      else case p1 of None \<Rightarrow> Fatal ''pipe''
      | Some fds \<Rightarrow>
         (let c = pipe_open c fds
          in case p2 of None \<Rightarrow> Fatal ''pipe''
             | Some fds2 \<Rightarrow>
                (let c = pipe_open c fds2
                 in if pid = - 1 then Fatal ''fork''
                    else if pid = 0 then Returned (InChild (fst fds) (snd fds2) (Running True))
                    else Returned (InParent (fst fds2)
                           (c\<lparr>started := True, child := pid, fd := snd fds, fdres := fst fds2\<rparr>)))))"

text \<open>
  \<open>sigalrm_handler\<close> sees what \<open>getppid\<close> returns. \<open>alarm_expires\<close> is one expiry of the
  interval timer (\<open>ALARM_TIMEOUT\<close>, one second): a pending alarm delivers \<open>SIGALRM\<close> and is
  no longer pending unless the handler sets it again. \<open>self_checks\<close> follows the worker
  through successive intervals, given the parent process id at each expiry.
\<close>

definition sigalrm_handler :: "int \<Rightarrow> wstatus" where
  "sigalrm_handler ppid = (if ppid \<noteq> 1 then Running True else Exited 1)"

definition alarm_expires :: "wstatus \<Rightarrow> int \<Rightarrow> wstatus" where
  "alarm_expires st ppid =
     (case st of Running armed \<Rightarrow> (if armed then sigalrm_handler ppid else Running False)
      | Exited code \<Rightarrow> Exited code)"

definition self_checks :: "wstatus \<Rightarrow> int list \<Rightarrow> wstatus" where
  "self_checks st ppids = foldl alarm_expires st ppids"

section \<open>Frames and well-behaved channels\<close>

text \<open>
  A kernel event is transient when it is one the transport is meant to ride out: a
  transfer of at least one byte, or a failure with \<open>EINTR\<close> or \<open>EAGAIN\<close>. A pipe is
  healthy when all that is scheduled for it is transient.
\<close>

fun transient :: "sysev \<Rightarrow> bool" where
  "transient (Xfer k) = (0 < k)"
| "transient (Errno e) = (e = EINTR \<or> e = EAGAIN)"

definition healthy :: "pipe \<Rightarrow> bool" where
  "healthy pp = (list_all transient (rd_sched pp) \<and> list_all transient (wr_sched pp))"

text \<open>The two frame layouts of the wire protocol, as the design states them.\<close>

definition request_frame :: "64 word \<Rightarrow> byte list \<Rightarrow> byte list \<Rightarrow> byte list" where
  "request_frame t h p =
     word_le t @ word_le (of_nat (length h)) @ h @ word_le (of_nat (length p)) @ p"

definition response_frame :: "64 word \<Rightarrow> ainode list \<Rightarrow> byte list" where
  "response_frame t rs =
     word_le t @ word_le (of_nat (length rs)) @ concat (map (\<lambda>rp. ai_bytes (fst rp) @ snd rp) rs)"

text \<open>
  A node of a lookup result is well formed when \<open>ai_addrlen\<close> is the size of the
  socket address \<open>ai_addr\<close> points to, as \<open>getaddrinfo\<close> promises.
\<close>

definition wf_node :: "ainode \<Rightarrow> bool" where
  "wf_node rp = (length (snd rp) = unat (ai_addrlen (fst rp)))"

text \<open>The result list the worker sends for a request: empty when the lookup fails.\<close>

definition answers :: "lookup \<Rightarrow> byte list \<Rightarrow> byte list \<Rightarrow> ainode list" where
  "answers gai h p = (case gai h p hints of GaiError e \<Rightarrow> [] | GaiOk rs \<Rightarrow> rs)"

text \<open>
  What the loop of \<open>resolve_result\<close> leaves in the heap, as a function of the nodes it
  decodes. \<open>link h lastp r\<close> is the heap after \<open>lastp->ai_next = r\<close> (nothing for a
  \<open>NULL\<close> \<open>lastp\<close>); \<open>linked h lastp ar rs\<close> stores the nodes \<open>rs\<close> one after the other in
  the objects \<open>ar\<close>, two per node, each linked from its predecessor.
\<close>

definition link :: "(64 word \<rightharpoonup> byte list) \<Rightarrow> 64 word \<Rightarrow> 64 word \<Rightarrow> (64 word \<rightharpoonup> byte list)" where
  "link h lastp r =
     (if lastp = 0 then h
      else case h lastp of None \<Rightarrow> h | Some b \<Rightarrow> h(lastp \<mapsto> store b 40 (word_le r)))"

fun linked ::
  "(64 word \<rightharpoonup> byte list) \<Rightarrow> 64 word \<Rightarrow> 64 word list \<Rightarrow> ainode list \<Rightarrow> (64 word \<rightharpoonup> byte list)" where
  "linked h lastp (r # a # ar) (rp # rs) =
     linked ((link h lastp r)(r \<mapsto> ai_bytes ((fst rp)\<lparr>ai_addr := a\<rparr>), a \<mapsto> snd rp)) r ar rs"
| "linked h lastp ar rs = h"

text \<open>
  \<open>ai_list h p rs ar\<close>: in the heap \<open>h\<close>, \<open>p\<close> is a list that ends in \<open>NULL\<close> and has
  one record per node of \<open>rs\<close>, in order; the records and the socket addresses they
  point to are the objects \<open>ar\<close>, two per node; every record has the bytes of its node,
  padding included, except for \<open>ai_addr\<close>, which points to the record's own copy of the
  node's socket address, and \<open>ai_next\<close>, which points to the next record.
\<close>

fun ai_list :: "(64 word \<rightharpoonup> byte list) \<Rightarrow> 64 word \<Rightarrow> ainode list \<Rightarrow> 64 word list \<Rightarrow> bool" where
  "ai_list h p [] ar = (p = 0 \<and> ar = [])"
| "ai_list h p (rp # rs) (r # a # ar) =
     (p = r \<and> r \<noteq> 0 \<and>
      (case h r of None \<Rightarrow> False
       | Some b \<Rightarrow>
           b = ai_bytes ((fst rp)\<lparr>ai_addr := a, ai_next := ai_next (bytes_ai b)\<rparr>)
           \<and> h a = Some (snd rp)
           \<and> ai_list h (ai_next (bytes_ai b)) rs ar))"
| "ai_list h p (rp # rs) ar = False"

section \<open>The caller and the worker together\<close>





text \<open>
  The requests a run submits, in order, and the number of its fetches that find a
  response, given the numbers of requests and of responses waiting at its start.
\<close>

type_synonym request = "64 word \<times> byte list \<times> byte list"



fun valid_req :: "lookup \<Rightarrow> request \<Rightarrow> bool" where
  "valid_req gai (t, h, p) =
     (0 \<notin> set h \<and> 0 \<notin> set p \<and> length h \<le> 4095 \<and> length p \<le> 4
      \<and> list_all wf_node (answers gai h p))"


fun req_frame :: "request \<Rightarrow> byte list" where
  "req_frame (t, h, p) = request_frame t h p"

fun resp_frame :: "lookup \<Rightarrow> request \<Rightarrow> byte list" where
  "resp_frame gai (t, h, p) = response_frame t (answers gai h p)"

section \<open>Encoding and decoding\<close>

lemma length_le_bytes [simp]: "length (le_bytes n v) = n"
  by (induction n arbitrary: v) simp_all

lemma le_val_le_bytes: "v < 256 ^ n \<Longrightarrow> le_val (le_bytes n v) = v"
proof (induction n arbitrary: v)
  case 0
  then show ?case by simp
next
  case (Suc n)
  from Suc.prems have "v div 256 < 256 ^ n"
    by (simp add: less_mult_imp_div_less mult.commute)
  then have "le_val (le_bytes n (v div 256)) = v div 256" by (rule Suc.IH)
  moreover have "unat (of_nat (v mod 256) :: byte) = v mod 256"
    by (simp add: unat_of_nat)
  ultimately show ?case by simp
qed

lemma length_word_le [simp]: "length (word_le w) = 8"
  by (simp add: word_le_def)

lemma length_int_le [simp]: "length (int_le w) = 4"
  by (simp add: int_le_def)

lemma le_word_word_le [simp]: "le_word (word_le w) = w"
proof -
  have "unat w < 2 ^ 64" using unsigned_less [of w] by simp
  then have "unat w < 256 ^ 8" by simp
  then show ?thesis by (simp add: le_word_def word_le_def le_val_le_bytes)
qed

lemma le_int_int_le [simp]: "le_int (int_le w) = w"
proof -
  have "unat w < 2 ^ 32" using unsigned_less [of w] by simp
  then have "unat w < 256 ^ 4" by simp
  then show ?thesis by (simp add: le_int_def int_le_def le_val_le_bytes)
qed

lemma length_ai_bytes [simp]: "length (ai_bytes a) = 48"
  by (simp add: ai_bytes_def)

lemma bytes_ai_ai_bytes [simp]: "bytes_ai (ai_bytes a) = a"
  by (simp add: ai_bytes_def bytes_ai_def)

text \<open>Decoding is onto: any 48 bytes are the representation of the value they decode to.\<close>

lemma le_val_bound: "le_val bs < 256 ^ length bs"
proof (induction bs)
  case Nil
  then show ?case by simp
next
  case (Cons b bs)
  have "unat b < 256" using unsigned_less [of b] by simp
  moreover have "le_val bs + 1 \<le> 256 ^ length bs" using Cons.IH by simp
  then have "256 * (le_val bs + 1) \<le> 256 * 256 ^ length bs" by (rule mult_le_mono2)
  ultimately show ?case by simp
qed

lemma le_bytes_le_val: "length bs = n \<Longrightarrow> le_bytes n (le_val bs) = bs"
proof (induction bs arbitrary: n)
  case Nil
  then show ?case by simp
next
  case (Cons b bs)
  then obtain m where n: "n = Suc m" and m: "length bs = m" by (cases n) auto
  have b: "unat b < 256" using unsigned_less [of b] by simp
  then have "(unat b + 256 * le_val bs) mod 256 = unat b"
    and "(unat b + 256 * le_val bs) div 256 = le_val bs" by simp_all
  then show ?case using Cons.IH [OF m] by (simp add: n)
qed

lemma word_le_le_word: "length bs = 8 \<Longrightarrow> word_le (le_word bs) = bs"
proof -
  assume l: "length bs = 8"
  have "le_val bs < 256 ^ 8" using le_val_bound [of bs] l by simp
  then have "unat (of_nat (le_val bs) :: 64 word) = le_val bs" by (simp add: unat_of_nat)
  then show ?thesis using l by (simp add: word_le_def le_word_def le_bytes_le_val)
qed

lemma int_le_le_int: "length bs = 4 \<Longrightarrow> int_le (le_int bs) = bs"
proof -
  assume l: "length bs = 4"
  have "le_val bs < 256 ^ 4" using le_val_bound [of bs] l by simp
  then have "unat (of_nat (le_val bs) :: 32 word) = le_val bs" by (simp add: unat_of_nat)
  then show ?thesis using l by (simp add: int_le_def le_int_def le_bytes_le_val)
qed

lemma take_drop_step: "take n (drop m xs) @ drop (m + n) xs = drop m xs"
  by (metis add.commute append_take_drop_id drop_drop)

lemma ai_bytes_bytes_ai:
  assumes "length b = 48"
  shows "ai_bytes (bytes_ai b) = b"
proof -
  have "ai_bytes (bytes_ai b) =
          take 4 b @ take 4 (drop 4 b) @ take 4 (drop 8 b) @ take 4 (drop 12 b)
          @ take 4 (drop 16 b) @ take 4 (drop 20 b) @ take 8 (drop 24 b)
          @ take 8 (drop 32 b) @ take 8 (drop 40 b)"
    using assms by (simp add: ai_bytes_def bytes_ai_def int_le_le_int word_le_le_word)
  also have "take 8 (drop 40 b) = drop 40 b" using assms by simp
  also have "take 8 (drop 32 b) @ drop 40 b = drop 32 b" using take_drop_step [of 8 32 b] by simp
  also have "take 8 (drop 24 b) @ drop 32 b = drop 24 b" using take_drop_step [of 8 24 b] by simp
  also have "take 4 (drop 20 b) @ drop 24 b = drop 20 b" using take_drop_step [of 4 20 b] by simp
  also have "take 4 (drop 16 b) @ drop 20 b = drop 16 b" using take_drop_step [of 4 16 b] by simp
  also have "take 4 (drop 12 b) @ drop 16 b = drop 12 b" using take_drop_step [of 4 12 b] by simp
  also have "take 4 (drop 8 b) @ drop 12 b = drop 8 b" using take_drop_step [of 4 8 b] by simp
  also have "take 4 (drop 4 b) @ drop 8 b = drop 4 b" using take_drop_step [of 4 4 b] by simp
  also have "take 4 b @ drop 4 b = b" by simp
  finally show ?thesis .
qed

text \<open>
  So the records of a response frame may be any objects of 48 bytes, padding included:
  whatever the worker writes after the tag and the count is the frame of the values it
  decodes to.
\<close>

lemma raw_records_frame:
  assumes "list_all (\<lambda>r. length (fst r) = 48) raw"
  shows "word_le t @ word_le (of_nat (length raw)) @ concat (map (\<lambda>r. fst r @ snd r) raw)
           = response_frame t (map (\<lambda>r. (bytes_ai (fst r), snd r)) raw)"
proof -
  have "concat (map (\<lambda>r. fst r @ snd r) raw)
          = concat (map (\<lambda>rp. ai_bytes (fst rp) @ snd rp)
                     (map (\<lambda>r. (bytes_ai (fst r), snd r)) raw))"
    using assms by (induction raw) (simp_all add: ai_bytes_bytes_ai)
  then show ?thesis by (simp add: response_frame_def)
qed

section \<open>The transfer loops\<close>

declare fd_read_loop.simps [simp del] fd_write_loop.simps [simp del]

lemma fd_read_loop_no_fatal: "fd_read_loop pp buf sz off todo r \<noteq> Fatal m"
proof (induction pp buf sz off todo r rule: fd_read_loop.induct)
  case (1 pp buf sz off todo r)
  show ?case
    apply (subst fd_read_loop.simps)
    using 1 apply (auto simp: Let_def again_def)
    done
qed

lemma fd_write_loop_no_fatal: "fd_write_loop pp buf sz off todo r \<noteq> Fatal m"
proof (induction pp buf sz off todo r rule: fd_write_loop.induct)
  case (1 pp buf sz off todo r)
  show ?case
    apply (subst fd_write_loop.simps)
    using 1 apply (auto simp: Let_def again_def)
    done
qed

lemma sys_read_transient:
  assumes "list_all transient (rd_sched pp)" and "0 < n" and "n \<le> length (bytes pp)"
  shows "\<exists>m es. m \<le> n
           \<and> snd (sys_read pp n) = pp\<lparr>bytes := drop m (bytes pp), rd_sched := es\<rparr>
           \<and> list_all transient es
           \<and> xfer (fst (sys_read pp n)) = take m (bytes pp)
           \<and> nat (ret (fst (sys_read pp n))) = m
           \<and> again (ret (fst (sys_read pp n))) (err (fst (sys_read pp n)))"
proof (cases "rd_sched pp")
  case Nil
  with assms show ?thesis
    by (intro exI [of _ n] exI [of _ "[]"]) (simp add: sys_read_def Let_def again_def)
next
  case (Cons ev es)
  show ?thesis
  proof (cases ev)
    case (Xfer k)
    with Cons assms show ?thesis
      by (intro exI [of _ "min k n"] exI [of _ es])
         (simp add: sys_read_def Let_def again_def min_def)
  next
    case (Errno e)
    with Cons assms show ?thesis
      by (intro exI [of _ 0] exI [of _ es]) (simp add: sys_read_def again_def)
  qed
qed

lemma fd_read_loop_full:
  assumes "list_all transient (rd_sched pp)"
      and "off + nat r + n = sz" and "todo - nat r = n"
      and "n \<le> length (bytes pp)" and "sz \<le> length buf"
  shows "\<exists>es. fd_read_loop pp buf sz off todo r =
                 Returned (take (off + nat r) buf @ take n (bytes pp) @ drop sz buf,
                           pp\<lparr>bytes := drop n (bytes pp), rd_sched := es\<rparr>)
              \<and> list_all transient es"
  using assms
proof (induction pp buf sz off todo r arbitrary: n rule: fd_read_loop.induct)
  case (1 pp buf sz off todo r)
  define off1 where "off1 = off + nat r"
  show ?case
  proof (cases "n = 0")
    case True
    with 1(3) have "off + nat r = sz" by simp
    then show ?thesis
      using True 1(2)
      by (subst fd_read_loop.simps) (auto simp: Let_def intro!: exI [of _ "rd_sched pp"])
  next
    case False
    then have n: "0 < n" by simp
    from sys_read_transient [OF 1(2) n 1(5)]
    obtain m es where m: "m \<le> n"
      and s: "snd (sys_read pp n) = pp\<lparr>bytes := drop m (bytes pp), rd_sched := es\<rparr>"
      and es: "list_all transient es"
      and x: "xfer (fst (sys_read pp n)) = take m (bytes pp)"
      and r: "nat (ret (fst (sys_read pp n))) = m"
      and a: "again (ret (fst (sys_read pp n))) (err (fst (sys_read pp n)))"
      by blast
    have ne: "off1 \<noteq> sz" using 1(3) n by (simp add: off1_def)
    have r0: "nat (if r < 0 then 0 else r) = nat r" by simp
    have t1: "todo - nat (if r < 0 then 0 else r) = n" using 1(4) by auto
    have o1: "off + nat (if r < 0 then 0 else r) = off1" by (auto simp add: off1_def)
    let ?buf1 = "store buf off1 (take m (bytes pp))"
    have lb: "length ?buf1 = length buf"
      using 1(3,5,6) m by (simp add: store_def off1_def)
    have "\<exists>es'. fd_read_loop (snd (sys_read pp n)) ?buf1 sz off1 n (ret (fst (sys_read pp n)))
             = Returned (take (off1 + nat (ret (fst (sys_read pp n)))) ?buf1
                          @ take (n - m) (bytes (snd (sys_read pp n))) @ drop sz ?buf1,
                        (snd (sys_read pp n))\<lparr>bytes := drop (n - m) (bytes (snd (sys_read pp n))), rd_sched := es'\<rparr>)
              \<and> list_all transient es'"
    proof (rule "1.IH" [OF refl refl _ refl refl refl, unfolded t1 o1 x])
      show "off1 \<noteq> sz" by (rule ne)
      show "again (ret (fst (sys_read pp n))) (err (fst (sys_read pp n)))" by (rule a)
      show "list_all transient (rd_sched (snd (sys_read pp n)))" using s es by simp
      show "off1 + nat (ret (fst (sys_read pp n))) + (n - m) = sz"
        using 1(3) m r by (simp add: off1_def)
      show "n - nat (ret (fst (sys_read pp n))) = n - m" using r by simp
      show "n - m \<le> length (bytes (snd (sys_read pp n)))" using s 1(5) by simp
      show "sz \<le> length ?buf1" using lb 1(6) by simp
    qed
    then obtain es' where
      rec: "fd_read_loop (snd (sys_read pp n)) ?buf1 sz off1 n (ret (fst (sys_read pp n)))
             = Returned (take (off1 + m) ?buf1
                          @ take (n - m) (drop m (bytes pp)) @ drop sz ?buf1,
                        pp\<lparr>bytes := drop (n - m) (drop m (bytes pp)), rd_sched := es'\<rparr>)"
      and es': "list_all transient es'"
      using r s by auto
    have b1: "take (off1 + m) ?buf1 = take off1 buf @ take m (bytes pp)"
      using 1(3,5,6) m by (simp add: store_def off1_def)
    have b2: "drop sz ?buf1 = drop sz buf"
      using 1(3,5,6) m by (simp add: store_def off1_def)
    have b3: "take m (bytes pp) @ take (n - m) (drop m (bytes pp)) = take n (bytes pp)"
      using m by (metis le_add_diff_inverse take_add)
    have step: "fd_read_loop pp buf sz off todo r
                = fd_read_loop (snd (sys_read pp n)) ?buf1 sz off1 n (ret (fst (sys_read pp n)))"
      using ne a by (subst fd_read_loop.simps) (simp add: Let_def t1 o1 x)
    show ?thesis
      using rec es' b1 b2 b3 m
      by (intro exI [of _ es']) (simp add: step off1_def [symmetric])
  qed
qed


lemma sys_write_transient:
  assumes "list_all transient (wr_sched pp)" and "src \<noteq> []"
  shows "\<exists>m es. m \<le> length src
           \<and> snd (sys_write pp src) = pp\<lparr>bytes := bytes pp @ take m src, wr_sched := es\<rparr>
           \<and> list_all transient es
           \<and> nat (ret (fst (sys_write pp src))) = m
           \<and> again (ret (fst (sys_write pp src))) (err (fst (sys_write pp src)))"
proof (cases "wr_sched pp")
  case Nil
  with assms show ?thesis
    by (intro exI [of _ "length src"] exI [of _ "[]"]) (simp add: sys_write_def again_def)
next
  case (Cons ev es)
  show ?thesis
  proof (cases ev)
    case (Xfer k)
    with Cons assms show ?thesis
      by (intro exI [of _ "min k (length src)"] exI [of _ es])
         (simp add: sys_write_def Let_def again_def min_def)
  next
    case (Errno e)
    with Cons assms show ?thesis
      by (intro exI [of _ 0] exI [of _ es]) (simp add: sys_write_def again_def)
  qed
qed

lemma fd_write_loop_full:
  assumes "list_all transient (wr_sched pp)"
      and "off + nat r + n = sz" and "todo - nat r = n" and "sz \<le> length buf"
  shows "\<exists>es. fd_write_loop pp buf sz off todo r =
                 Returned (pp\<lparr>bytes := bytes pp @ take n (drop (off + nat r) buf),
                             wr_sched := es\<rparr>)
              \<and> list_all transient es"
  using assms
proof (induction pp buf sz off todo r arbitrary: n rule: fd_write_loop.induct)
  case (1 pp buf sz off todo r)
  define off1 where "off1 = off + nat r"
  show ?case
  proof (cases "n = 0")
    case True
    with 1(3) have "off + nat r = sz" by simp
    then show ?thesis
      using True 1(2)
      by (subst fd_write_loop.simps) (auto simp: Let_def intro!: exI [of _ "wr_sched pp"])
  next
    case False
    then have n: "0 < n" by simp
    let ?src = "take n (drop off1 buf)"
    let ?s = "sys_write pp ?src"
    have ls: "length ?src = n" using 1(3,5) by (simp add: off1_def)
    then have "?src \<noteq> []" using n by auto
    from sys_write_transient [OF 1(2) this]
    obtain m es where m: "m \<le> n"
      and s: "snd ?s = pp\<lparr>bytes := bytes pp @ take m ?src, wr_sched := es\<rparr>"
      and es: "list_all transient es"
      and r: "nat (ret (fst ?s)) = m"
      and a: "again (ret (fst ?s)) (err (fst ?s))"
      using ls by auto
    have ne: "off1 \<noteq> sz" using 1(3) n by (simp add: off1_def)
    have t1: "todo - nat (if r < 0 then 0 else r) = n" using 1(4) by auto
    have o1: "off + nat (if r < 0 then 0 else r) = off1" by (auto simp add: off1_def)
    have "\<exists>es'. fd_write_loop (snd ?s) buf sz off1 n (ret (fst ?s))
             = Returned ((snd ?s)\<lparr>bytes := bytes (snd ?s)
                              @ take (n - m) (drop (off1 + nat (ret (fst ?s))) buf),
                            wr_sched := es'\<rparr>)
              \<and> list_all transient es'"
    proof (rule "1.IH" [OF refl refl _ refl refl, unfolded t1 o1])
      show "off1 \<noteq> sz" by (rule ne)
      show "again (ret (fst ?s)) (err (fst ?s))" by (rule a)
      show "list_all transient (wr_sched (snd ?s))" using s es by simp
      show "off1 + nat (ret (fst ?s)) + (n - m) = sz"
        using 1(3) m r by (simp add: off1_def)
      show "n - nat (ret (fst ?s)) = n - m" using r by simp
      show "sz \<le> length buf" by (rule 1(5))
    qed
    then obtain es' where
      rec: "fd_write_loop (snd ?s) buf sz off1 n (ret (fst ?s))
             = Returned (pp\<lparr>bytes := (bytes pp @ take m ?src) @ take (n - m) (drop (off1 + m) buf),
                           wr_sched := es'\<rparr>)"
      and es': "list_all transient es'"
      using r s by auto
    have b: "take m ?src @ take (n - m) (drop (off1 + m) buf) = take n (drop off1 buf)"
    proof -
      have "take n (drop off1 buf) = take (m + (n - m)) (drop off1 buf)" using m by simp
      also have "\<dots> = take m (drop off1 buf) @ take (n - m) (drop m (drop off1 buf))"
        by (rule take_add)
      also have "take m (drop off1 buf) = take m ?src" using m by (simp add: min_absorb1)
      also have "drop m (drop off1 buf) = drop (off1 + m) buf" by (simp add: add.commute)
      finally show ?thesis by (rule sym)
    qed
    have step: "fd_write_loop pp buf sz off todo r
                = fd_write_loop (snd ?s) buf sz off1 n (ret (fst ?s))"
      using ne a by (subst fd_write_loop.simps) (simp add: Let_def t1 o1)
    show ?thesis
      using rec es' b
      by (intro exI [of _ es']) (simp add: step off1_def [symmetric])
  qed
qed


lemma fd_read_healthy:
  assumes "healthy pp" and "bytes pp = d @ rest" and "length d = n" and "n \<le> length buf"
  shows "\<exists>pp'. fd_read pp buf n = Returned (d @ drop n buf, pp') \<and> bytes pp' = rest \<and> healthy pp'"
proof -
  have "\<exists>es. fd_read_loop pp buf n 0 n 0 =
                 Returned (take (0 + nat 0) buf @ take n (bytes pp) @ drop n buf,
                           pp\<lparr>bytes := drop n (bytes pp), rd_sched := es\<rparr>)
              \<and> list_all transient es"
    using assms by (intro fd_read_loop_full) (simp_all add: healthy_def)
  then obtain es where
    "fd_read_loop pp buf n 0 n 0 =
       Returned (take n (bytes pp) @ drop n buf, pp\<lparr>bytes := drop n (bytes pp), rd_sched := es\<rparr>)"
    and "list_all transient es" by auto
  with assms show ?thesis by (simp add: fd_read_def healthy_def)
qed

lemma fd_write_healthy:
  assumes "healthy pp" and "n \<le> length buf"
  shows "\<exists>pp'. fd_write pp buf n = Returned pp' \<and> bytes pp' = bytes pp @ take n buf \<and> healthy pp'"
proof -
  have "\<exists>es. fd_write_loop pp buf n 0 n 0 =
                 Returned (pp\<lparr>bytes := bytes pp @ take n (drop (0 + nat 0) buf), wr_sched := es\<rparr>)
              \<and> list_all transient es"
    using assms by (intro fd_write_loop_full) (simp_all add: healthy_def)
  then obtain es where
    "fd_write_loop pp buf n 0 n 0 = Returned (pp\<lparr>bytes := bytes pp @ take n buf, wr_sched := es\<rparr>)"
    and "list_all transient es" by auto
  with assms show ?thesis by (simp add: fd_write_def healthy_def)
qed


section \<open>Frames through the worker and the caller\<close>

lemma bnd_Returned [simp]: "bnd (Returned x) f = f x"
  by (simp add: bnd_def)

lemma bnd_Fatal [simp]: "bnd (Fatal m) f = Fatal m"
  by (simp add: bnd_def)

lemma bnd_Undefined [simp]: "bnd Undefined f = Undefined"
  by (simp add: bnd_def)

lemma strlen_le: "strlen s \<le> length s"
  by (simp add: strlen_def length_takeWhile_le)

lemma strlen_terminated:
  assumes "0 \<notin> set h"
  shows "strlen (h @ 0 # x) = length h"
proof -
  have "takeWhile (\<lambda>b. b \<noteq> 0) (h @ 0 # x) = h @ takeWhile (\<lambda>b. b \<noteq> 0) (0 # x)"
    using assms by (intro takeWhile_append2) auto
  then show ?thesis by (simp add: strlen_def)
qed

lemma strlen_plain: "0 \<notin> set h \<Longrightarrow> strlen h = length h"
  by (induction h) (auto simp: strlen_def)

lemma unat_len64: "n < 2 ^ 64 \<Longrightarrow> unat (of_nat n :: 64 word) = n"
  by (simp add: unat_of_nat)

lemma resolve_healthy:
  assumes h: "healthy q" and lh: "strlen host < 2 ^ 64" and lp: "strlen port < 2 ^ 64"
  shows "\<exists>q'. resolve q t host port = Returned q'
           \<and> bytes q' = bytes q @ request_frame t (take (strlen host) host) (take (strlen port) port)
           \<and> healthy q'"
proof -
  have uh: "unat (of_nat (strlen host) :: 64 word) = strlen host" using lh by (rule unat_len64)
  have up: "unat (of_nat (strlen port) :: 64 word) = strlen port" using lp by (rule unat_len64)
  from fd_write_healthy [OF h, of 8 "word_le t"] obtain q1 where
    1: "fd_write q (word_le t) 8 = Returned q1" "bytes q1 = bytes q @ word_le t" "healthy q1"
    by auto
  from fd_write_healthy [OF 1(3), of 8 "word_le (of_nat (strlen host))"] obtain q2 where
    2: "fd_write q1 (word_le (of_nat (strlen host))) 8 = Returned q2"
       "bytes q2 = bytes q1 @ word_le (of_nat (strlen host))" "healthy q2"
    by auto
  from fd_write_healthy [OF 2(3), of "strlen host" host] obtain q3 where
    3: "fd_write q2 host (strlen host) = Returned q3"
       "bytes q3 = bytes q2 @ take (strlen host) host" "healthy q3"
    using strlen_le by auto
  from fd_write_healthy [OF 3(3), of 8 "word_le (of_nat (strlen port))"] obtain q4 where
    4: "fd_write q3 (word_le (of_nat (strlen port))) 8 = Returned q4"
       "bytes q4 = bytes q3 @ word_le (of_nat (strlen port))" "healthy q4"
    by auto
  from fd_write_healthy [OF 4(3), of "strlen port" port] obtain q5 where
    5: "fd_write q4 port (strlen port) = Returned q5"
       "bytes q5 = bytes q4 @ take (strlen port) port" "healthy q5"
    using strlen_le by auto
  have "resolve q t host port = Returned q5"
    by (simp add: resolve_def Let_def uh up 1 2 3 4 5)
  moreover have "bytes q5 = bytes q @ request_frame t (take (strlen host) host) (take (strlen port) port)"
    using strlen_le [of host] strlen_le [of port]
    by (simp add: request_frame_def 1 2 3 4 5 min_absorb2)
  ultimately show ?thesis using 5(3) by blast
qed

lemma recv_request_healthy:
  assumes h: "healthy (fd_in w)" and b: "bytes (fd_in w) = request_frame t hs ps @ rest"
      and lh: "length hs \<le> 4096" and lp: "length ps \<le> 5"
  shows "\<exists>i. recv_request w =
               Returned (w\<lparr>fd_in := i, ptr := t, host_len := of_nat (length hs),
                           port_len := of_nat (length ps)\<rparr>,
                         hs @ replicate (4096 - length hs) 0, ps @ replicate (5 - length ps) 0)
           \<and> bytes i = rest \<and> healthy i"
proof -
  have uh: "unat (of_nat (length hs) :: 64 word) = length hs" using lh by (simp add: unat_of_nat)
  have up: "unat (of_nat (length ps) :: 64 word) = length ps" using lp by (simp add: unat_of_nat)
  let ?r1 = "word_le (of_nat (length hs)) @ hs @ word_le (of_nat (length ps)) @ ps @ rest"
  let ?r2 = "hs @ word_le (of_nat (length ps)) @ ps @ rest"
  let ?r3 = "word_le (of_nat (length ps)) @ ps @ rest"
  let ?r4 = "ps @ rest"
  from fd_read_healthy [OF h, of "word_le t" ?r1 8 "word_le (ptr w)"] obtain i1 where
    1: "fd_read (fd_in w) (word_le (ptr w)) 8 = Returned (word_le t, i1)"
       "bytes i1 = ?r1" "healthy i1"
    using b by (auto simp: request_frame_def)
  from fd_read_healthy [OF 1(3), of "word_le (of_nat (length hs))" ?r2 8 "word_le (host_len w)"]
  obtain i2 where
    2: "fd_read i1 (word_le (host_len w)) 8 = Returned (word_le (of_nat (length hs)), i2)"
       "bytes i2 = ?r2" "healthy i2"
    using 1(2) by auto
  from fd_read_healthy [OF 2(3), of hs ?r3 "length hs" "replicate 4096 0"]
  obtain i3 where
    3: "fd_read i2 (replicate 4096 0) (length hs) = Returned (hs @ replicate (4096 - length hs) 0, i3)"
       "bytes i3 = ?r3" "healthy i3"
    using 2(2) lh by auto
  from fd_read_healthy [OF 3(3), of "word_le (of_nat (length ps))" ?r4 8 "word_le (port_len w)"]
  obtain i4 where
    4: "fd_read i3 (word_le (port_len w)) 8 = Returned (word_le (of_nat (length ps)), i4)"
       "bytes i4 = ?r4" "healthy i4"
    using 3(2) by auto
  from fd_read_healthy [OF 4(3), of ps rest "length ps" "replicate 5 0"]
  obtain i5 where
    5: "fd_read i4 (replicate 5 0) (length ps) = Returned (ps @ replicate (5 - length ps) 0, i5)"
       "bytes i5 = rest" "healthy i5"
    using 4(2) lp by auto
  have "recv_request w =
          Returned (w\<lparr>fd_in := i5, ptr := t, host_len := of_nat (length hs),
                      port_len := of_nat (length ps)\<rparr>,
                    hs @ replicate (4096 - length hs) 0, ps @ replicate (5 - length ps) 0)"
    using lh lp by (simp add: recv_request_def Let_def 1 2 3 4 5 uh up)
  then show ?thesis using 5 by blast
qed

lemma count_results_eq: "count_results rs n = n + of_nat (length rs)"
  by (induction rs arbitrary: n) simp_all

lemma write_results_healthy:
  assumes "healthy out" and "list_all wf_node rs"
  shows "\<exists>out'. write_results out rs = Returned out'
            \<and> bytes out' = bytes out @ concat (map (\<lambda>rp. ai_bytes (fst rp) @ snd rp) rs)
            \<and> healthy out'"
  using assms
proof (induction rs arbitrary: out)
  case Nil
  then show ?case by simp
next
  case (Cons rp rs)
  from fd_write_healthy [OF Cons.prems(1), of 48 "ai_bytes (fst rp)"] obtain o1 where
    1: "fd_write out (ai_bytes (fst rp)) 48 = Returned o1"
       "bytes o1 = bytes out @ ai_bytes (fst rp)" "healthy o1"
    by auto
  from fd_write_healthy [OF 1(3), of "unat (ai_addrlen (fst rp))" "snd rp"] obtain o2 where
    2: "fd_write o1 (snd rp) (unat (ai_addrlen (fst rp))) = Returned o2"
       "bytes o2 = bytes o1 @ snd rp" "healthy o2"
    using Cons.prems(2) by (auto simp: wf_node_def)
  from Cons.IH [OF 2(3)] Cons.prems(2) obtain o3 where
    3: "write_results o2 rs = Returned o3"
       "bytes o3 = bytes o2 @ concat (map (\<lambda>rp. ai_bytes (fst rp) @ snd rp) rs)" "healthy o3"
    by auto
  show ?case by (simp add: 1 2 3)
qed

lemma send_response_healthy:
  assumes "healthy (fd_out w)" and "list_all wf_node rs"
  shows "\<exists>out'. send_response w rs = Returned (w\<lparr>fd_out := out'\<rparr>)
            \<and> bytes out' = bytes (fd_out w) @ response_frame (ptr w) rs
            \<and> healthy out'"
proof -
  from fd_write_healthy [OF assms(1), of 8 "word_le (ptr w)"] obtain o1 where
    1: "fd_write (fd_out w) (word_le (ptr w)) 8 = Returned o1"
       "bytes o1 = bytes (fd_out w) @ word_le (ptr w)" "healthy o1"
    by auto
  from fd_write_healthy [OF 1(3), of 8 "word_le (of_nat (length rs))"] obtain o2 where
    2: "fd_write o1 (word_le (of_nat (length rs))) 8 = Returned o2"
       "bytes o2 = bytes o1 @ word_le (of_nat (length rs))" "healthy o2"
    by auto
  from write_results_healthy [OF 2(3) assms(2)] obtain o3 where
    3: "write_results o2 rs = Returned o3"
       "bytes o3 = bytes o2 @ concat (map (\<lambda>rp. ai_bytes (fst rp) @ snd rp) rs)" "healthy o3"
    by auto
  have "send_response w rs = Returned (w\<lparr>fd_out := o3\<rparr>)"
    by (simp add: send_response_def Let_def count_results_eq 1 2 3)
  moreover have "bytes o3 = bytes (fd_out w) @ response_frame (ptr w) rs"
    by (simp add: response_frame_def 1 2 3)
  ultimately show ?thesis using 3(3) by blast
qed

lemma c_string_padded:
  assumes "0 \<notin> set h" and "length h < n"
  shows "c_string (h @ replicate (n - length h) 0) = Some h"
proof -
  have "takeWhile (\<lambda>b. b \<noteq> 0) (h @ replicate (n - length h) 0)
          = h @ takeWhile (\<lambda>b. b \<noteq> 0) (replicate (n - length h) (0 :: byte))"
    using assms(1) by (intro takeWhile_append2) auto
  moreover have "takeWhile (\<lambda>b. b \<noteq> 0) (replicate (n - length h) (0 :: byte)) = []"
    using assms(2) by (cases "n - length h") simp_all
  ultimately show ?thesis using assms(2) by (simp add: c_string_def)
qed

lemma c_string_unterminated: "0 \<notin> set h \<Longrightarrow> c_string h = None"
  by (simp add: c_string_def)

lemma resolver_step_healthy:
  assumes hi: "healthy (fd_in w)" and ho: "healthy (fd_out w)"
      and b: "bytes (fd_in w) = request_frame t hs ps @ rest"
      and lh: "length hs \<le> 4095" and lp: "length ps \<le> 4"
      and zh: "0 \<notin> set hs" and zp: "0 \<notin> set ps"
      and wf: "list_all wf_node (answers gai hs ps)"
  shows "\<exists>i out. resolver_step gai w =
               Returned (w\<lparr>fd_in := i, ptr := t, host_len := of_nat (length hs),
                           port_len := of_nat (length ps), fd_out := out\<rparr>)
           \<and> bytes i = rest \<and> healthy i
           \<and> bytes out = bytes (fd_out w) @ response_frame t (answers gai hs ps) \<and> healthy out"
proof -
  from recv_request_healthy [OF hi b] lh lp obtain i where
    r: "recv_request w =
          Returned (w\<lparr>fd_in := i, ptr := t, host_len := of_nat (length hs),
                      port_len := of_nat (length ps)\<rparr>,
                    hs @ replicate (4096 - length hs) 0, ps @ replicate (5 - length ps) 0)"
    and i: "bytes i = rest" "healthy i"
    by auto
  let ?w = "w\<lparr>fd_in := i, ptr := t, host_len := of_nat (length hs), port_len := of_nat (length ps)\<rparr>"
  have ch: "c_string (hs @ replicate (4096 - length hs) 0) = Some hs"
    using zh lh by (intro c_string_padded) simp_all
  have cp: "c_string (ps @ replicate (5 - length ps) 0) = Some ps"
    using zp lp by (intro c_string_padded) simp_all
  from send_response_healthy [of ?w "answers gai hs ps"] ho wf obtain out where
    s: "send_response ?w (answers gai hs ps) = Returned (?w\<lparr>fd_out := out\<rparr>)"
    and out: "bytes out = bytes (fd_out w) @ response_frame t (answers gai hs ps)" "healthy out"
    by auto
  have "resolver_step gai w = Returned (?w\<lparr>fd_out := out\<rparr>)"
    using s by (simp add: resolver_step_def r ch cp answers_def Let_def)
  then show ?thesis using i out by (intro exI [of _ i] exI [of _ out]) simp
qed

lemma recv_request_rejects_host:
  assumes "healthy (fd_in w)" and "bytes (fd_in w) = word_le t @ word_le n @ rest"
      and "4096 < unat n"
  shows "recv_request w = Fatal ''invalid host_len''"
proof -
  from fd_read_healthy [OF assms(1), of "word_le t" "word_le n @ rest" 8 "word_le (ptr w)"]
  obtain i1 where
    1: "fd_read (fd_in w) (word_le (ptr w)) 8 = Returned (word_le t, i1)"
       "bytes i1 = word_le n @ rest" "healthy i1"
    using assms(2) by auto
  from fd_read_healthy [OF 1(3), of "word_le n" rest 8 "word_le (host_len w)"]
  obtain i2 where
    2: "fd_read i1 (word_le (host_len w)) 8 = Returned (word_le n, i2)"
    using 1(2) by auto
  show ?thesis using assms(3) by (simp add: recv_request_def Let_def 1 2)
qed

lemma recv_request_rejects_port:
  assumes "healthy (fd_in w)"
      and "bytes (fd_in w) = word_le t @ word_le (of_nat (length hs)) @ hs @ word_le n @ rest"
      and "length hs \<le> 4096" and "5 < unat n"
  shows "recv_request w = Fatal ''invalid port_len''"
proof -
  have uh: "unat (of_nat (length hs) :: 64 word) = length hs"
    using assms(3) by (simp add: unat_of_nat)
  from fd_read_healthy [OF assms(1), of "word_le t" "word_le (of_nat (length hs)) @ hs @ word_le n @ rest"
         8 "word_le (ptr w)"]
  obtain i1 where
    1: "fd_read (fd_in w) (word_le (ptr w)) 8 = Returned (word_le t, i1)"
       "bytes i1 = word_le (of_nat (length hs)) @ hs @ word_le n @ rest" "healthy i1"
    using assms(2) by auto
  from fd_read_healthy [OF 1(3), of "word_le (of_nat (length hs))" "hs @ word_le n @ rest" 8
         "word_le (host_len w)"]
  obtain i2 where
    2: "fd_read i1 (word_le (host_len w)) 8 = Returned (word_le (of_nat (length hs)), i2)"
       "bytes i2 = hs @ word_le n @ rest" "healthy i2"
    using 1(2) by auto
  from fd_read_healthy [OF 2(3), of hs "word_le n @ rest" "length hs" "replicate 4096 0"]
  obtain i3 where
    3: "fd_read i2 (replicate 4096 0) (length hs) = Returned (hs @ replicate (4096 - length hs) 0, i3)"
       "bytes i3 = word_le n @ rest" "healthy i3"
    using 2(2) assms(3) by auto
  from fd_read_healthy [OF 3(3), of "word_le n" rest 8 "word_le (port_len w)"]
  obtain i4 where
    4: "fd_read i3 (word_le (port_len w)) 8 = Returned (word_le n, i4)"
    using 3(2) by auto
  show ?thesis using assms(3,4) by (simp add: recv_request_def Let_def 1 2 3 4 uh)
qed

section \<open>The result list in the caller's heap\<close>

declare rr_loop.simps [simp del]

lemma store_ai_next: "store (ai_bytes x) 40 (word_le v) = ai_bytes (x\<lparr>ai_next := v\<rparr>)"
  by (simp add: store_def ai_bytes_def)

lemma store_ai_addr: "store (ai_bytes x) 24 (word_le v) = ai_bytes (x\<lparr>ai_addr := v\<rparr>)"
  by (simp add: store_def ai_bytes_def)

lemma rr_loop_linked:
  assumes "healthy pp"
      and "bytes pp = concat (map (\<lambda>rp. ai_bytes (fst rp) @ snd rp) rs) @ rest"
      and "list_all wf_node rs"
      and "2 * length rs \<le> length (arena c)" and "distinct (arena c)" and "0 \<notin> set (arena c)"
      and "lastp \<notin> set (arena c)" and "(i = 0) = (lastp = 0)"
      and "lastp \<noteq> 0 \<longrightarrow> heap c lastp \<noteq> None"
      and "n = i + length rs"
  shows "\<exists>pp'. rr_loop n i c pp first lastp =
            Returned (c\<lparr>heap := linked (heap c) lastp (arena c) rs,
                        arena := drop (2 * length rs) (arena c)\<rparr>, pp',
                      (if i = 0 \<and> rs \<noteq> [] then hd (arena c) else first),
                      (if rs = [] then lastp else arena c ! (2 * (length rs - 1))))
          \<and> bytes pp' = rest \<and> healthy pp'"
  using assms
proof (induction rs arbitrary: c pp first lastp i)
  case Nil
  have "c\<lparr>heap := heap c, arena := arena c\<rparr> = c" by simp
  with Nil show ?case by (subst rr_loop.simps) simp
next
  case (Cons rp rs)
  from Cons.prems(4) obtain r a ar where ar: "arena c = r # a # ar"
    by (cases "arena c"; cases "tl (arena c)") auto
  have d: "r \<noteq> 0" "a \<noteq> 0" "r \<noteq> a" "r \<notin> set ar" "a \<notin> set ar" "distinct ar" "0 \<notin> set ar"
          "lastp \<noteq> r" "lastp \<noteq> a" "lastp \<notin> set ar"
    using Cons.prems(5,6,7) ar by auto
  have lt: "i < n" using Cons.prems(10) by simp
  define c1 where "c1 = c\<lparr>arena := a # ar, heap := (heap c)(r \<mapsto> replicate 48 0)\<rparr>"
  have x1: "xmalloc c 48 = Returned (r, c1)"
    using d(1) by (simp add: xmalloc_def ar c1_def)
  define c2 where "c2 = c1\<lparr>heap := (link (heap c) lastp r)(r \<mapsto> replicate 48 0)\<rparr>"
  define first' where "first' = (if i = 0 then r else first)"
  have l: "(if i = 0 then Returned (c1, r, r)
            else bnd (poke c1 lastp 40 (word_le r)) (\<lambda>c. Returned (c, first, r)))
           = Returned (c2, first', r)"
  proof (cases "i = 0")
    case True
    then have "lastp = 0" using Cons.prems(8) by simp
    then have "c2 = c1" by (simp add: c2_def c1_def link_def)
    with True show ?thesis by (simp add: first'_def)
  next
    case False
    then have "lastp \<noteq> 0" using Cons.prems(8) by simp
    with Cons.prems(9) obtain b where b: "heap c lastp = Some b" by auto
    have "poke c1 lastp 40 (word_le r) = Returned c2"
      using b d(8) \<open>lastp \<noteq> 0\<close>
      by (simp add: poke_def peek_def put_def c1_def c2_def link_def fun_upd_twist)
    with False show ?thesis by (simp add: first'_def)
  qed
  have pk: "peek c2 r = Returned (replicate 48 0)"
    by (simp add: peek_def c2_def)
  let ?tl = "concat (map (\<lambda>rp. ai_bytes (fst rp) @ snd rp) rs) @ rest"
  from fd_read_healthy [OF Cons.prems(1), of "ai_bytes (fst rp)" "snd rp @ ?tl" 48 "replicate 48 0"]
  obtain pp1 where
    r1: "fd_read pp (replicate 48 0) 48 = Returned (ai_bytes (fst rp), pp1)"
    and pp1: "bytes pp1 = snd rp @ ?tl" "healthy pp1"
    using Cons.prems(2) by auto
  define c3 where "c3 = put c2 r (ai_bytes (fst rp))"
  have len: "unat (ai_addrlen (fst rp)) = length (snd rp)"
    using Cons.prems(3) by (simp add: wf_node_def)
  define c4 where "c4 = c3\<lparr>arena := ar, heap := (heap c3)(a \<mapsto> replicate (length (snd rp)) 0)\<rparr>"
  have x2: "xmalloc c3 (length (snd rp)) = Returned (a, c4)"
    using d(2) by (simp add: xmalloc_def c3_def put_def c2_def c1_def c4_def)
  define c5 where "c5 = put c4 r (ai_bytes ((fst rp)\<lparr>ai_addr := a\<rparr>))"
  have p2: "poke c4 r 24 (word_le a) = Returned c5"
    using d(3) by (simp add: poke_def peek_def c4_def c3_def put_def c5_def store_ai_addr)
  have pk2: "peek c5 a = Returned (replicate (length (snd rp)) 0)"
    using d(3) by (simp add: peek_def c5_def put_def c4_def)
  from fd_read_healthy [OF pp1(2), of "snd rp" ?tl "length (snd rp)" "replicate (length (snd rp)) 0"]
  obtain pp2 where
    r2: "fd_read pp1 (replicate (length (snd rp)) 0) (length (snd rp)) = Returned (snd rp, pp2)"
    and pp2: "bytes pp2 = ?tl" "healthy pp2"
    using pp1(1) by auto
  define c6 where "c6 = put c5 a (snd rp)"
  have step: "rr_loop n i c pp first lastp = rr_loop n (Suc i) c6 pp2 first' r"
    using lt by (subst rr_loop.simps)
      (simp add: x1 l pk r1 c3_def [symmetric] Let_def len x2 p2 pk2 r2 c6_def [symmetric])
  have h6: "heap c6 = (link (heap c) lastp r)(r \<mapsto> ai_bytes ((fst rp)\<lparr>ai_addr := a\<rparr>), a \<mapsto> snd rp)"
    using d(3) by (simp add: c6_def c5_def c4_def c3_def c2_def c1_def put_def fun_upd_twist)
  have a6: "arena c6 = ar"
    by (simp add: c6_def c5_def c4_def c3_def c2_def c1_def put_def)
  have hr: "heap c6 r \<noteq> None" using d(3) by (simp add: h6)
  from Cons.IH [of pp2 c6 r "Suc i" first'] pp2 Cons.prems(3,4,10) a6 d hr ar
  obtain pp' where
    rec: "rr_loop n (Suc i) c6 pp2 first' r =
            Returned (c6\<lparr>heap := linked (heap c6) r ar rs, arena := drop (2 * length rs) ar\<rparr>, pp',
                      first', (if rs = [] then r else ar ! (2 * (length rs - 1))))"
    and pp': "bytes pp' = rest" "healthy pp'"
    by auto
  have e1: "c6\<lparr>heap := linked (heap c6) r ar rs, arena := drop (2 * length rs) ar\<rparr>
          = c\<lparr>heap := linked (heap c) lastp (arena c) (rp # rs),
               arena := drop (2 * length (rp # rs)) (arena c)\<rparr>"
    by (rule client.equality)
       (simp_all add: h6 ar c6_def c5_def c4_def c3_def c2_def c1_def put_def)
  have e2: "first' = (if i = 0 \<and> rp # rs \<noteq> [] then hd (arena c) else first)"
    by (simp add: first'_def ar)
  have e3: "(if rs = [] then r else ar ! (2 * (length rs - 1)))
          = (if rp # rs = [] then lastp else arena c ! (2 * (length (rp # rs) - 1)))"
    by (cases rs) (simp_all add: ar)
  show ?case
    unfolding step rec e1 e2 [symmetric] e3 [symmetric] using pp' by blast
qed

lemma link_other: "x \<noteq> lastp \<or> lastp = 0 \<Longrightarrow> link h lastp r x = h x"
  by (simp add: link_def split: option.splits)

lemma link_at:
  "lastp \<noteq> 0 \<Longrightarrow> h lastp = Some b \<Longrightarrow> link h lastp r lastp = Some (store b 40 (word_le r))"
  by (simp add: link_def)

lemma linked_other:
  "x \<notin> set ar \<Longrightarrow> x \<noteq> lastp \<or> lastp = 0 \<Longrightarrow> linked h lastp ar rs x = h x"
proof (induction rs arbitrary: h lastp ar)
  case Nil
  then show ?case by simp
next
  case (Cons rp rs)
  show ?case
  proof (cases "\<exists>r a ar'. ar = r # a # ar'")
    case True
    then obtain r a ar' where ar: "ar = r # a # ar'" by blast
    define h1 where "h1 = (link h lastp r)(r \<mapsto> ai_bytes ((fst rp)\<lparr>ai_addr := a\<rparr>), a \<mapsto> snd rp)"
    have "linked h lastp ar (rp # rs) x = linked h1 r ar' rs x"
      by (simp only: ar linked.simps h1_def)
    also have "\<dots> = h1 x" using Cons.prems by (intro Cons.IH) (auto simp: ar)
    also have "\<dots> = link h lastp r x" using Cons.prems(1) by (auto simp: h1_def ar)
    also have "\<dots> = h x" using Cons.prems(2) by (rule link_other)
    finally show ?thesis .
  next
    case False
    then show ?thesis by (cases ar; cases "tl ar") auto
  qed
qed

lemma linked_lastp:
  assumes "lastp \<notin> set ar" and "lastp \<noteq> 0" and "h lastp = Some b"
      and "rs \<noteq> []" and "2 \<le> length ar"
  shows "linked h lastp ar rs lastp = Some (store b 40 (word_le (hd ar)))"
proof -
  from assms(4) obtain rp rs' where rs: "rs = rp # rs'" by (cases rs) auto
  from assms(5) obtain r a ar' where ar: "ar = r # a # ar'"
    by (cases ar; cases "tl ar") auto
  define h1 where "h1 = (link h lastp r)(r \<mapsto> ai_bytes ((fst rp)\<lparr>ai_addr := a\<rparr>), a \<mapsto> snd rp)"
  have "linked h lastp ar rs lastp = linked h1 r ar' rs' lastp"
    by (simp only: rs ar linked.simps h1_def)
  also have "\<dots> = h1 lastp" using assms(1) by (intro linked_other) (auto simp: ar)
  also have "\<dots> = link h lastp r lastp" using assms(1) by (auto simp: h1_def ar)
  also have "\<dots> = Some (store b 40 (word_le r))" using assms(2,3) by (rule link_at)
  finally show ?thesis by (simp add: ar)
qed

lemma linked_list:
  assumes "distinct ar" and "0 \<notin> set ar" and "lastp \<notin> set ar"
      and "2 * length rs \<le> length ar" and "rs \<noteq> []"
  shows "ai_list (link (linked h lastp ar rs) (ar ! (2 * (length rs - 1))) 0) (hd ar) rs
           (take (2 * length rs) ar)"
  using assms
proof (induction rs arbitrary: h lastp ar)
  case Nil
  then show ?case by simp
next
  case (Cons rp rs)
  from Cons.prems(4) obtain r a ar' where ar: "ar = r # a # ar'"
    by (cases ar; cases "tl ar") auto
  have d: "r \<noteq> 0" "r \<noteq> a" "r \<notin> set ar'" "a \<notin> set ar'" "distinct ar'" "0 \<notin> set ar'"
    using Cons.prems(1,2) ar by auto
  define R where "R = ai_bytes ((fst rp)\<lparr>ai_addr := a\<rparr>)"
  define h1 where "h1 = (link h lastp r)(r \<mapsto> R, a \<mapsto> snd rp)"
  define L where "L = ar ! (2 * (length (rp # rs) - 1))"
  define Hf where "Hf = link (linked h lastp ar (rp # rs)) L 0"
  have H: "linked h lastp ar (rp # rs) = linked h1 r ar' rs"
    by (simp only: ar linked.simps h1_def R_def)
  have h1r: "h1 r = Some R" using d(2) by (simp add: h1_def)
  have h1a: "h1 a = Some (snd rp)" by (simp add: h1_def)
  have tk: "take (2 * length (rp # rs)) ar = r # a # take (2 * length rs) ar'"
    by (simp add: ar)
  have goal: "ai_list Hf r (rp # rs) (r # a # take (2 * length rs) ar')"
  proof (cases rs)
    case Nil
    have Lr: "L = r" by (simp add: L_def Nil ar)
    have Hh: "linked h1 r ar' rs = h1" by (simp add: Nil)
    have "Hf r = Some (store R 40 (word_le 0))"
      unfolding Hf_def H Hh Lr using d(1) h1r by (rule link_at)
    then have 1: "Hf r = Some (ai_bytes ((fst rp)\<lparr>ai_addr := a, ai_next := 0\<rparr>))"
      by (simp add: R_def store_ai_next)
    have 2: "Hf a = Some (snd rp)"
      unfolding Hf_def H Hh Lr using d(2) h1a by (simp add: link_other)
    show ?thesis using d(1) 1 2 by (simp add: Nil)
  next
    case (Cons rp' rs')
    then have ne: "rs \<noteq> []" by simp
    have len: "2 * length rs \<le> length ar'" using Cons.prems(4) by (simp add: ar)
    then obtain r' a' ar'' where ar': "ar' = r' # a' # ar''"
      using Cons by (cases ar'; cases "tl ar'") auto
    have L: "L = ar' ! (2 * (length rs - 1))" using ne by (cases rs) (simp_all add: ar L_def)
    have "2 * (length rs - 1) < length ar'" using len ne by (cases rs) simp_all
    then have Lin: "L \<in> set ar'" unfolding L by (rule nth_mem)
    then have Lr: "r \<noteq> L" and La: "a \<noteq> L" using d(3,4) by auto
    have "linked h1 r ar' rs r = Some (store R 40 (word_le (hd ar')))"
      using d(3) d(1) h1r ne by (rule linked_lastp) (simp add: ar')
    then have "Hf r = Some (store R 40 (word_le r'))"
      unfolding Hf_def H using Lr by (simp add: link_other ar')
    then have 1: "Hf r = Some (ai_bytes ((fst rp)\<lparr>ai_addr := a, ai_next := r'\<rparr>))"
      by (simp add: R_def store_ai_next)
    have "linked h1 r ar' rs a = h1 a" using d(4) d(2) by (intro linked_other) auto
    then have 2: "Hf a = Some (snd rp)"
      unfolding Hf_def H using La h1a by (simp add: link_other)
    have "ai_list (link (linked h1 r ar' rs) (ar' ! (2 * (length rs - 1))) 0) (hd ar') rs
            (take (2 * length rs) ar')"
      using d(5,6,3) len ne by (rule Cons.IH)
    then have 3: "ai_list Hf r' rs (take (2 * length rs) ar')"
      by (simp add: Hf_def H L ar')
    show ?thesis using d(1) 1 2 3 by simp
  qed
  show ?case
    using goal unfolding Hf_def L_def tk by (simp add: ar)
qed

lemma linked_last_in:
  assumes "distinct ar" and "lastp \<notin> set ar" and "2 * length rs \<le> length ar" and "rs \<noteq> []"
  shows "linked h lastp ar rs (ar ! (2 * (length rs - 1))) \<noteq> None"
  using assms
proof (induction rs arbitrary: h lastp ar)
  case Nil
  then show ?case by simp
next
  case (Cons rp rs)
  from Cons.prems(3) obtain r a ar' where ar: "ar = r # a # ar'"
    by (cases ar; cases "tl ar") auto
  have d: "r \<noteq> a" "r \<notin> set ar'" "a \<notin> set ar'" "distinct ar'"
    using Cons.prems(1) ar by auto
  define h1 where "h1 = (link h lastp r)(r \<mapsto> ai_bytes ((fst rp)\<lparr>ai_addr := a\<rparr>), a \<mapsto> snd rp)"
  have H: "linked h lastp ar (rp # rs) = linked h1 r ar' rs"
    by (simp only: ar linked.simps h1_def)
  show ?case
  proof (cases rs)
    case Nil
    have "linked h1 r ar' rs = h1" by (simp add: Nil)
    moreover have "h1 r \<noteq> None" using d(1) by (simp add: h1_def)
    ultimately show ?thesis unfolding H by (simp add: Nil ar)
  next
    case (Cons rp' rs')
    then have ne: "rs \<noteq> []" by simp
    have len: "2 * length rs \<le> length ar'" using Cons.prems(3) by (simp add: ar)
    have "linked h1 r ar' rs (ar' ! (2 * (length rs - 1))) \<noteq> None"
      using d(4,2) len ne by (rule Cons.IH)
    moreover have "ar ! (2 * (length (rp # rs) - 1)) = ar' ! (2 * (length rs - 1))"
      using ne by (cases rs) (simp_all add: ar)
    ultimately show ?thesis unfolding H by simp
  qed
qed

lemma distinct_words_length:
  assumes "distinct (xs :: 64 word list)"
  shows "length xs \<le> 2 ^ 64"
proof -
  have "length xs = card (set xs)" using assms by (simp add: distinct_card)
  also have "\<dots> \<le> card (UNIV :: 64 word set)" by (intro card_mono) simp_all
  also have "\<dots> = 2 ^ 64" by (simp add: card_word)
  finally show ?thesis .
qed

lemma fd_setblock_fields [simp]:
  "heap (fd_setblock c d) = heap c" "arena (fd_setblock c d) = arena c"
  "fdres (fd_setblock c d) = fdres c" "fd (fd_setblock c d) = fd c"
  "child (fd_setblock c d) = child c" "started (fd_setblock c d) = started c"
  by (simp_all add: fd_setblock_def fcntl_setfl_def Let_def split: option.splits)

lemma fd_setnonblock_fields [simp]:
  "heap (fd_setnonblock c d) = heap c" "arena (fd_setnonblock c d) = arena c"
  "fdres (fd_setnonblock c d) = fdres c" "fd (fd_setnonblock c d) = fd c"
  "child (fd_setnonblock c d) = child c" "started (fd_setnonblock c d) = started c"
  by (simp_all add: fd_setnonblock_def fcntl_setfl_def Let_def split: option.splits)

lemma flags_fd_setnonblock_cong:
  "flags c1 = flags c2 \<Longrightarrow> flags (fd_setnonblock c1 d) = flags (fd_setnonblock c2 d)"
  by (simp add: fd_setnonblock_def fcntl_setfl_def fcntl_getfl_def Let_def split: option.splits)

lemma resolve_result_frame:
  assumes hp: "healthy pp" and b: "bytes pp = response_frame t rs @ rest"
      and wf: "list_all wf_node rs"
      and ar: "2 * length rs \<le> length (arena c)" "distinct (arena c)" "0 \<notin> set (arena c)"
  shows "\<exists>c' pp'. resolve_result c pp junk
              = Returned (c', pp', t, (if rs = [] then 0 else hd (arena c)))
          \<and> bytes pp' = rest \<and> healthy pp'
          \<and> heap c' = link (linked (heap c) 0 (arena c) rs)
                         (if rs = [] then 0 else arena c ! (2 * (length rs - 1))) 0
          \<and> arena c' = drop (2 * length rs) (arena c)
          \<and> flags c' = flags (fd_setnonblock (fd_setblock c (fdres c)) (fdres c))
          \<and> started c' = started c \<and> child c' = child c \<and> fd c' = fd c \<and> fdres c' = fdres c"
proof -
  define c0 where "c0 = fd_setblock c (fdres c)"
  define L where "L = (if rs = [] then 0 else arena c ! (2 * (length rs - 1)))"
  define H where "H = linked (heap c) 0 (arena c) rs"
  let ?frames = "concat (map (\<lambda>rp. ai_bytes (fst rp) @ snd rp) rs)"
  have "length (arena c) \<le> 2 ^ 64" using ar(2) by (rule distinct_words_length)
  with ar(1) have n64: "length rs < 2 ^ 64" by simp
  have un: "unat (of_nat (length rs) :: 64 word) = length rs" using n64 by (rule unat_len64)
  from fd_read_healthy [OF hp, of "word_le t" "word_le (of_nat (length rs)) @ ?frames @ rest" 8 "word_le junk"]
  obtain pp1 where
    1: "fd_read pp (word_le junk) 8 = Returned (word_le t, pp1)"
       "bytes pp1 = word_le (of_nat (length rs)) @ ?frames @ rest" "healthy pp1"
    using b by (auto simp: response_frame_def)
  from fd_read_healthy [OF 1(3), of "word_le (of_nat (length rs))" "?frames @ rest" 8 "word_le 0"]
  obtain pp2 where
    2: "fd_read pp1 (word_le 0) 8 = Returned (word_le (of_nat (length rs)), pp2)"
       "bytes pp2 = ?frames @ rest" "healthy pp2"
    using 1(2) by auto
  define cR where "cR = c0\<lparr>heap := H, arena := drop (2 * length rs) (arena c)\<rparr>"
  from rr_loop_linked [OF 2(3) 2(2) wf, of c0 0 0 "length rs" 0] ar
  obtain pp' where
    3: "rr_loop (length rs) 0 c0 pp2 0 0 = Returned (cR, pp', (if rs = [] then 0 else hd (arena c)), L)"
    and pp': "bytes pp' = rest" "healthy pp'"
    by (auto simp: c0_def cR_def H_def L_def)
  define c2 where "c2 = cR\<lparr>heap := link H L 0\<rparr>"
  have 4: "(if L \<noteq> 0 then poke cR L 40 (word_le 0) else Returned cR) = Returned c2"
  proof (cases "rs = []")
    case True
    then have "L = 0" by (simp add: L_def)
    moreover from this have "c2 = cR" by (simp add: c2_def cR_def link_def)
    ultimately show ?thesis by simp
  next
    case False
    have "2 * (length rs - 1) < length (arena c)" using ar(1) False by (cases rs) simp_all
    then have "arena c ! (2 * (length rs - 1)) \<in> set (arena c)" by (rule nth_mem)
    then have L0: "L \<noteq> 0" using ar(3) False by (auto simp: L_def)
    have "linked (heap c) 0 (arena c) rs (arena c ! (2 * (length rs - 1))) \<noteq> None"
      using ar(2) _ ar(1) False by (rule linked_last_in) (use ar(3) in simp)
    then have "H L \<noteq> None" using False by (simp add: H_def L_def)
    then obtain x where x: "H L = Some x" by auto
    have "poke cR L 40 (word_le 0) = Returned c2"
      using x L0 by (simp add: poke_def peek_def put_def cR_def c2_def link_def)
    with L0 show ?thesis by simp
  qed
  define c' where "c' = fd_setnonblock c2 (fdres c2)"
  have res: "resolve_result c pp junk = Returned (c', pp', t, (if rs = [] then 0 else hd (arena c)))"
    by (simp add: resolve_result_def Let_def c0_def [symmetric] 1 2 un 3 4 c'_def)
  have f: "flags c2 = flags c0" "fdres c2 = fdres c" by (simp_all add: c2_def cR_def c0_def)
  have "flags c' = flags (fd_setnonblock c0 (fdres c))"
    unfolding c'_def f(2) using f(1) by (rule flags_fd_setnonblock_cong)
  moreover have "heap c' = link H L 0" "arena c' = drop (2 * length rs) (arena c)"
    "started c' = started c" "child c' = child c" "fd c' = fd c" "fdres c' = fdres c"
    by (simp_all add: c'_def c2_def cR_def c0_def)
  ultimately show ?thesis
    using res pp' unfolding H_def L_def c0_def by blast
qed

section \<open>Requests on their way to the worker\<close>

text \<open>
  Claim C3. A request frame whose declared host length is 4096, one over the host maximum
  of 4095, or whose declared service length is 5, one over the maximum of 4, is to be
  refused with the fatal transport error before its payload is read. The worker's checks
  are \<open>host_len > sizeof(host)\<close> and \<open>port_len > sizeof(port)\<close>, so it refuses from 4097
  and from 6 on (\<open>recv_request_rejects_host\<close>, \<open>recv_request_rejects_port\<close>) and accepts
  4096 and 5: the payload is read and fills the array to its last byte, no NUL is left,
  and the string handed to \<open>getaddrinfo\<close> runs past the array. The theorem runs the
  worker on the frame of \<open>resolve(1, h, "80")\<close> for a host \<open>h\<close> of 4096 letters, and on
  the frame of \<open>resolve(1, "a", "65535")\<close>.
\<close>

theorem oversize_by_one_accepted:
  "(\<exists>w'. recv_request
            \<lparr>fd_in = \<lparr>bytes = request_frame 1 (replicate 4096 0x61) [0x38, 0x30],
                       rd_sched = [], wr_sched = []\<rparr>,
             fd_out = \<lparr>bytes = [], rd_sched = [], wr_sched = []\<rparr>,
             ptr = 0, host_len = 0, port_len = 0\<rparr>
          = Returned (w', replicate 4096 0x61, [0x38, 0x30] @ replicate 3 0))
   \<and> resolver_step (\<lambda>h p a. GaiError (- 2))
            \<lparr>fd_in = \<lparr>bytes = request_frame 1 (replicate 4096 0x61) [0x38, 0x30],
                       rd_sched = [], wr_sched = []\<rparr>,
             fd_out = \<lparr>bytes = [], rd_sched = [], wr_sched = []\<rparr>,
             ptr = 0, host_len = 0, port_len = 0\<rparr>
          = Undefined
   \<and> (\<exists>w'. recv_request
            \<lparr>fd_in = \<lparr>bytes = request_frame 1 [0x61] [0x36, 0x35, 0x35, 0x33, 0x35],
                       rd_sched = [], wr_sched = []\<rparr>,
             fd_out = \<lparr>bytes = [], rd_sched = [], wr_sched = []\<rparr>,
             ptr = 0, host_len = 0, port_len = 0\<rparr>
          = Returned (w', 0x61 # replicate 4095 0, [0x36, 0x35, 0x35, 0x33, 0x35]))
   \<and> resolver_step (\<lambda>h p a. GaiError (- 2))
            \<lparr>fd_in = \<lparr>bytes = request_frame 1 [0x61] [0x36, 0x35, 0x35, 0x33, 0x35],
                       rd_sched = [], wr_sched = []\<rparr>,
             fd_out = \<lparr>bytes = [], rd_sched = [], wr_sched = []\<rparr>,
             ptr = 0, host_len = 0, port_len = 0\<rparr>
          = Undefined"
proof -
  let ?out = "\<lparr>bytes = [], rd_sched = [], wr_sched = []\<rparr>"
  let ?w1 = "\<lparr>fd_in = \<lparr>bytes = request_frame 1 (replicate 4096 0x61) [0x38, 0x30],
                       rd_sched = [], wr_sched = []\<rparr>,
             fd_out = ?out, ptr = 0, host_len = 0, port_len = 0\<rparr>"
  let ?w2 = "\<lparr>fd_in = \<lparr>bytes = request_frame 1 [0x61] [0x36, 0x35, 0x35, 0x33, 0x35],
                       rd_sched = [], wr_sched = []\<rparr>,
             fd_out = ?out, ptr = 0, host_len = 0, port_len = 0\<rparr>"
  from recv_request_healthy [of ?w1 1 "replicate 4096 0x61" "[0x38, 0x30]" "[]"]
  obtain i1 where
    1: "recv_request ?w1 =
          Returned (?w1\<lparr>fd_in := i1, ptr := 1, host_len := of_nat 4096, port_len := of_nat 2\<rparr>,
                    replicate 4096 0x61, [0x38, 0x30] @ replicate 3 0)"
    by (auto simp: healthy_def)
  from recv_request_healthy [of ?w2 1 "[0x61]" "[0x36, 0x35, 0x35, 0x33, 0x35]" "[]"]
  obtain i2 where
    2: "recv_request ?w2 =
          Returned (?w2\<lparr>fd_in := i2, ptr := 1, host_len := of_nat 1, port_len := of_nat 5\<rparr>,
                    0x61 # replicate 4095 0, [0x36, 0x35, 0x35, 0x33, 0x35])"
    by (auto simp: healthy_def)
  have 3: "resolver_step (\<lambda>h p a. GaiError (- 2)) ?w1 = Undefined"
    by (simp add: resolver_step_def 1 c_string_def)
  have 4: "resolver_step (\<lambda>h p a. GaiError (- 2)) ?w2 = Undefined"
    by (simp add: resolver_step_def 2 c_string_def)
  show ?thesis using 1 2 3 4 by blast
qed

text \<open>
  Claim C6. A host of at most 4095 bytes and a service of at most 4 bytes, written by
  \<open>resolve\<close> into an empty request channel and read by the worker, arrive in the
  worker's \<open>host\<close> and \<open>port\<close> arrays byte for byte, followed by zeros only, so that
  the strings the worker reads out of the arrays are the strings submitted. This holds
  whatever transient failures and partial transfers the kernel schedules on the channel.
\<close>

theorem request_round_trip:
  assumes "healthy q" and "bytes q = []"
      and "0 \<notin> set hs" and "0 \<notin> set ps"
      and "length hs \<le> 4095" and "length ps \<le> 4"
  shows "\<exists>q' w'. resolve q t (hs @ 0 # hx) (ps @ 0 # px) = Returned q'
           \<and> recv_request (w\<lparr>fd_in := q'\<rparr>)
               = Returned (w', hs @ replicate (4096 - length hs) 0, ps @ replicate (5 - length ps) 0)
           \<and> c_string (hs @ replicate (4096 - length hs) 0) = Some hs
           \<and> c_string (ps @ replicate (5 - length ps) 0) = Some ps"
proof -
  have sh: "strlen (hs @ 0 # hx) = length hs" using assms(3) by (rule strlen_terminated)
  have sp: "strlen (ps @ 0 # px) = length ps" using assms(4) by (rule strlen_terminated)
  from resolve_healthy [OF assms(1), of "hs @ 0 # hx" "ps @ 0 # px" t] assms(5,6) sh sp
  obtain q' where
    1: "resolve q t (hs @ 0 # hx) (ps @ 0 # px) = Returned q'"
    and 2: "bytes q' = request_frame t hs ps @ []" "healthy q'"
    using assms(2) by auto
  from recv_request_healthy [of "w\<lparr>fd_in := q'\<rparr>" t hs ps "[]"] 2 assms(5,6)
  obtain w' where
    3: "recv_request (w\<lparr>fd_in := q'\<rparr>)
          = Returned (w', hs @ replicate (4096 - length hs) 0, ps @ replicate (5 - length ps) 0)"
    by auto
  have ch: "c_string (hs @ replicate (4096 - length hs) 0) = Some hs"
    using assms(3,5) by (intro c_string_padded) simp_all
  have cp: "c_string (ps @ replicate (5 - length ps) 0) = Some ps"
    using assms(4,6) by (intro c_string_padded) simp_all
  show ?thesis using 1 3 ch cp by blast
qed

text \<open>
  Claim C6 at the host \<open>"a"\<close> and the service \<open>"80"\<close>, on a channel whose first
  \<open>write\<close> moves one byte and whose second is interrupted.
\<close>

theorem request_round_trip_witness:
  "\<exists>q' w'. resolve \<lparr>bytes = [], rd_sched = [Errno EAGAIN, Xfer 2], wr_sched = [Xfer 1, Errno EINTR]\<rparr>
                7 ([0x61] @ 0 # []) ([0x38, 0x30] @ 0 # []) = Returned q'
      \<and> recv_request (\<lparr>fd_in = \<lparr>bytes = [], rd_sched = [], wr_sched = []\<rparr>,
                          fd_out = \<lparr>bytes = [], rd_sched = [], wr_sched = []\<rparr>,
                          ptr = 0, host_len = 0, port_len = 0\<rparr>\<lparr>fd_in := q'\<rparr>)
          = Returned (w', [0x61] @ replicate (4096 - length [0x61 :: byte]) 0,
                          [0x38, 0x30] @ replicate (5 - length [0x38, 0x30 :: byte]) 0)
      \<and> c_string ([0x61] @ replicate (4096 - length [0x61 :: byte]) 0) = Some [0x61]
      \<and> c_string ([0x38, 0x30] @ replicate (5 - length [0x38, 0x30 :: byte]) 0) = Some [0x38, 0x30]"
  using request_round_trip
    [of "\<lparr>bytes = [], rd_sched = [Errno EAGAIN, Xfer 2], wr_sched = [Xfer 1, Errno EINTR]\<rparr>"
        "[0x61]" "[0x38, 0x30]" 7 "[]" "[]"
        "\<lparr>fd_in = \<lparr>bytes = [], rd_sched = [], wr_sched = []\<rparr>,
          fd_out = \<lparr>bytes = [], rd_sched = [], wr_sched = []\<rparr>,
          ptr = 0, host_len = 0, port_len = 0\<rparr>"]
  by (simp add: healthy_def)

section \<open>Failed lookups\<close>

text \<open>
  Claim C5. When the lookup of a request reports an error, the worker still writes a
  response frame: the request's tag followed by a result count of zero and nothing else.
  The error code occurs nowhere in it, and the worker ends the iteration in the very
  state a lookup that succeeds with no addresses leaves it in.
\<close>

theorem failed_lookup_empty_response:
  assumes "healthy (fd_in w)" and "healthy (fd_out w)"
      and "bytes (fd_in w) = request_frame t hs ps @ rest"
      and "length hs \<le> 4095" and "length ps \<le> 4"
      and "0 \<notin> set hs" and "0 \<notin> set ps"
      and "gai hs ps hints = GaiError e"
  shows "\<exists>w'. resolver_step gai w = Returned w'
           \<and> ptr w' = t
           \<and> bytes (fd_out w') = bytes (fd_out w) @ response_frame t []
           \<and> response_frame t [] = word_le t @ word_le 0
           \<and> resolver_step (\<lambda>h p a. GaiOk []) w = Returned w'"
proof -
  have a: "answers gai hs ps = []" using assms(8) by (simp add: answers_def)
  have a': "answers (\<lambda>h p a. GaiOk []) hs ps = []" by (simp add: answers_def)
  from resolver_step_healthy [OF assms(1-7), of gai] a obtain i out where
    1: "resolver_step gai w =
          Returned (w\<lparr>fd_in := i, ptr := t, host_len := of_nat (length hs),
                      port_len := of_nat (length ps), fd_out := out\<rparr>)"
    and out: "bytes out = bytes (fd_out w) @ response_frame t []"
    by auto
  from recv_request_healthy [OF assms(1,3)] assms(4,5) obtain j where
    r: "recv_request w =
          Returned (w\<lparr>fd_in := j, ptr := t, host_len := of_nat (length hs),
                      port_len := of_nat (length ps)\<rparr>,
                    hs @ replicate (4096 - length hs) 0, ps @ replicate (5 - length ps) 0)"
    by auto
  have ch: "c_string (hs @ replicate (4096 - length hs) 0) = Some hs"
    using assms(4,6) by (intro c_string_padded) simp_all
  have cp: "c_string (ps @ replicate (5 - length ps) 0) = Some ps"
    using assms(5,7) by (intro c_string_padded) simp_all
  have "resolver_step (\<lambda>h p a. GaiOk []) w = resolver_step gai w"
    using assms(8) by (simp add: resolver_step_def r ch cp)
  then show ?thesis using 1 out by (simp add: response_frame_def)
qed

text \<open>
  Claim C5 at the request \<open>(7, "a", "80")\<close> with a lookup that fails with code -2, one
  more byte waiting on the request channel and one byte already on the result channel.
\<close>

theorem failed_lookup_empty_response_witness:
  "\<exists>w'. resolver_step (\<lambda>h p a. GaiError (- 2))
            \<lparr>fd_in = \<lparr>bytes = request_frame 7 [0x61] [0x38, 0x30] @ [9],
                       rd_sched = [Errno EINTR, Xfer 1], wr_sched = []\<rparr>,
             fd_out = \<lparr>bytes = [5], rd_sched = [], wr_sched = [Xfer 3, Errno EAGAIN]\<rparr>,
             ptr = 0, host_len = 0, port_len = 0\<rparr> = Returned w'
      \<and> ptr w' = 7
      \<and> bytes (fd_out w') = [5] @ response_frame 7 []
      \<and> response_frame 7 [] = word_le 7 @ word_le 0
      \<and> resolver_step (\<lambda>h p a. GaiOk [])
            \<lparr>fd_in = \<lparr>bytes = request_frame 7 [0x61] [0x38, 0x30] @ [9],
                       rd_sched = [Errno EINTR, Xfer 1], wr_sched = []\<rparr>,
             fd_out = \<lparr>bytes = [5], rd_sched = [], wr_sched = [Xfer 3, Errno EAGAIN]\<rparr>,
             ptr = 0, host_len = 0, port_len = 0\<rparr> = Returned w'"
  using failed_lookup_empty_response
    [of "\<lparr>fd_in = \<lparr>bytes = request_frame 7 [0x61] [0x38, 0x30] @ [9],
                       rd_sched = [Errno EINTR, Xfer 1], wr_sched = []\<rparr>,
             fd_out = \<lparr>bytes = [5], rd_sched = [], wr_sched = [Xfer 3, Errno EAGAIN]\<rparr>,
             ptr = 0, host_len = 0, port_len = 0\<rparr>"
        7 "[0x61]" "[0x38, 0x30]" "[9]" "\<lambda>h p a. GaiError (- 2)" "- 2"]
  by (simp add: healthy_def)

section \<open>Fetching a response\<close>

lemma or_and_same: "((f AND NOT m) OR m) AND m = (m :: 32 word)"
  by (rule bit_word_eqI) (auto simp: bit_simps)

lemma flags_after_resolve_result:
  "flags (fd_setnonblock (fd_setblock c d) d) =
     (case flags c d of None \<Rightarrow> flags c
      | Some f \<Rightarrow> (flags c)(d \<mapsto> (f AND NOT O_NONBLOCK) OR O_NONBLOCK))"
  by (simp add: fd_setnonblock_def fd_setblock_def fcntl_setfl_def fcntl_getfl_def Let_def
           split: option.splits)

lemma linked_take: "linked h lastp (take (2 * length rs) ar) rs = linked h lastp ar rs"
proof (induction rs arbitrary: h lastp ar)
  case Nil
  then show ?case by simp
next
  case (Cons rp rs)
  show ?case
  proof (cases "\<exists>r a ar'. ar = r # a # ar'")
    case True
    then obtain r a ar' where ar: "ar = r # a # ar'" by blast
    define h1 where "h1 = (link h lastp r)(r \<mapsto> ai_bytes ((fst rp)\<lparr>ai_addr := a\<rparr>), a \<mapsto> snd rp)"
    have "take (2 * length (rp # rs)) ar = r # a # take (2 * length rs) ar'" by (simp add: ar)
    then have "linked h lastp (take (2 * length (rp # rs)) ar) (rp # rs)
                 = linked h1 r (take (2 * length rs) ar') rs"
      by (simp only: linked.simps h1_def)
    also have "\<dots> = linked h1 r ar' rs" by (rule Cons.IH)
    also have "\<dots> = linked h lastp ar (rp # rs)" by (simp only: ar linked.simps h1_def)
    finally show ?thesis .
  next
    case False
    then show ?thesis by (cases ar; cases "tl ar") auto
  qed
qed

text \<open>
  Claim C9. A call of \<open>resolve_result\<close> on a result channel that holds a response frame
  (whatever its tag and its result count, and whatever follows it) reads exactly that
  frame: what remains on the channel is what followed the frame. When it returns, the
  descriptor \<open>_fdres\<close> is in non-blocking mode and the flags of every other descriptor
  are what they were. The caller's \<open>malloc\<close> is assumed to have two objects left for
  every record of the frame.
\<close>

theorem resolve_result_one_frame:
  assumes "healthy pp" and "bytes pp = response_frame t rs @ rest"
      and "list_all wf_node rs"
      and "2 * length rs \<le> length (arena c)" and "distinct (arena c)" and "0 \<notin> set (arena c)"
      and "flags c (fdres c) = Some f"
  shows "\<exists>c' pp' first. resolve_result c pp junk = Returned (c', pp', t, first)
           \<and> bytes pp' = rest
           \<and> nonblocking c' (fdres c)
           \<and> (\<forall>d. d \<noteq> fdres c \<longrightarrow> flags c' d = flags c d)"
proof -
  from resolve_result_frame [OF assms(1-6), of junk] obtain c' pp' where
    r: "resolve_result c pp junk = Returned (c', pp', t, (if rs = [] then 0 else hd (arena c)))"
    and p: "bytes pp' = rest"
    and fl: "flags c' = flags (fd_setnonblock (fd_setblock c (fdres c)) (fdres c))"
    by blast
  have fl': "flags c' = (flags c)(fdres c \<mapsto> (f AND NOT O_NONBLOCK) OR O_NONBLOCK)"
    using assms(7) by (simp add: fl flags_after_resolve_result)
  have "nonblocking c' (fdres c)"
    by (simp add: nonblocking_def fl' or_and_same) (simp add: O_NONBLOCK_def)
  moreover have "\<forall>d. d \<noteq> fdres c \<longrightarrow> flags c' d = flags c d"
    by (simp add: fl')
  ultimately show ?thesis using r p by blast
qed

text \<open>
  Claim C9 at a frame with tag 7 and one record, followed by two more bytes, on a channel
  whose first \<open>read\<close> moves three bytes and whose second is interrupted.
\<close>

theorem resolve_result_one_frame_witness:
  "\<exists>c' pp' first.
      resolve_result
        \<lparr>started = True, child = 4242, fd = 4, fdres = 5,
         flags = [4 \<mapsto> O_WRONLY, 5 \<mapsto> O_RDONLY], heap = Map.empty, arena = [0x10, 0x20, 0x30]\<rparr>
        \<lparr>bytes = response_frame 7
                   [(\<lparr>ai_flags = 1, ai_family = 2, ai_socktype = 1, ai_protocol = 6,
                      ai_addrlen = 2, ai_pad = 0x5A5A5A5A, ai_addr = 0x1000, ai_canonname = 0, ai_next = 0\<rparr>, [5, 6])]
                 @ [9, 9],
         rd_sched = [Xfer 3, Errno EINTR], wr_sched = []\<rparr> 0
        = Returned (c', pp', 7, first)
      \<and> bytes pp' = [9, 9]
      \<and> nonblocking c' 5
      \<and> (\<forall>d. d \<noteq> 5 \<longrightarrow> flags c' d = [4 \<mapsto> O_WRONLY, 5 \<mapsto> O_RDONLY] d)"
  using resolve_result_one_frame
    [of "\<lparr>bytes = response_frame 7
                   [(\<lparr>ai_flags = 1, ai_family = 2, ai_socktype = 1, ai_protocol = 6,
                      ai_addrlen = 2, ai_pad = 0x5A5A5A5A, ai_addr = 0x1000, ai_canonname = 0, ai_next = 0\<rparr>, [5, 6])]
                 @ [9, 9],
         rd_sched = [Xfer 3, Errno EINTR], wr_sched = []\<rparr>"
        7
        "[(\<lparr>ai_flags = 1, ai_family = 2, ai_socktype = 1, ai_protocol = 6,
           ai_addrlen = 2, ai_pad = 0x5A5A5A5A, ai_addr = 0x1000, ai_canonname = 0, ai_next = 0\<rparr>, [5, 6])]"
        "[9, 9]"
        "\<lparr>started = True, child = 4242, fd = 4, fdres = 5,
         flags = [4 \<mapsto> O_WRONLY, 5 \<mapsto> O_RDONLY], heap = Map.empty, arena = [0x10, 0x20, 0x30]\<rparr>"
        O_RDONLY 0]
  by (simp add: healthy_def wf_node_def)

text \<open>
  Claim C10. For a response frame with the records \<open>rs\<close>, the pointer \<open>resolve_result\<close>
  stores in \<open>*r\<close> is a list that ends in \<open>NULL\<close> and has exactly one record per record
  of the frame, in order. The records and the socket addresses their \<open>ai_addr\<close> point to
  are the objects of the first \<open>2 * length rs\<close> calls of \<open>malloc\<close>: all different, none of
  them an object the heap held before, and every socket address is the copy of its own
  record alone. No other object of the heap changes. For a frame without records the
  pointer is \<open>NULL\<close> and the tag is returned all the same. The records of the frame
  are any objects of 48 bytes (\<open>raw_records_frame\<close>): their padding bytes are whatever
  the worker's memory held, and the caller's records hold the same.
\<close>

theorem resolve_result_list:
  assumes "healthy pp" and "bytes pp = response_frame t rs @ rest"
      and "list_all wf_node rs"
      and "2 * length rs \<le> length (arena c)" and "distinct (arena c)" and "0 \<notin> set (arena c)"
      and "list_all (\<lambda>p. heap c p = None) (arena c)"
  shows "\<exists>c' pp' first. resolve_result c pp junk = Returned (c', pp', t, first)
           \<and> ai_list (heap c') first rs (take (2 * length rs) (arena c))
           \<and> (rs = [] \<longrightarrow> first = 0)
           \<and> distinct (take (2 * length rs) (arena c))
           \<and> list_all (\<lambda>p. heap c p = None) (take (2 * length rs) (arena c))
           \<and> arena c' = drop (2 * length rs) (arena c)
           \<and> (\<forall>x. x \<notin> set (take (2 * length rs) (arena c)) \<longrightarrow> heap c' x = heap c x)"
proof -
  define L where "L = (if rs = [] then 0 else arena c ! (2 * (length rs - 1)))"
  define first where "first = (if rs = [] then 0 else hd (arena c))"
  define used where "used = take (2 * length rs) (arena c)"
  from resolve_result_frame [OF assms(1-6), of junk] obtain c' pp' where
    r: "resolve_result c pp junk = Returned (c', pp', t, first)"
    and h: "heap c' = link (linked (heap c) 0 (arena c) rs) L 0"
    and a: "arena c' = drop (2 * length rs) (arena c)"
    unfolding L_def first_def by blast
  have l: "ai_list (heap c') first rs used"
  proof (cases "rs = []")
    case True
    then show ?thesis by (simp add: first_def used_def)
  next
    case False
    have "ai_list (link (linked (heap c) 0 (arena c) rs) (arena c ! (2 * (length rs - 1))) 0)
            (hd (arena c)) rs (take (2 * length rs) (arena c))"
      using assms(5,6,6,4) False by (rule linked_list)
    with False show ?thesis by (simp add: h L_def first_def used_def)
  qed
  have d: "distinct used" using assms(5) by (simp add: used_def)
  have f: "list_all (\<lambda>p. heap c p = None) used"
    using assms(7) by (auto simp: used_def list_all_iff dest: in_set_takeD)
  have o: "heap c' x = heap c x" if x: "x \<notin> set used" for x
  proof -
    have "linked (heap c) 0 (arena c) rs x = linked (heap c) 0 used rs x"
      by (simp add: used_def linked_take)
    also have "\<dots> = heap c x" using x by (intro linked_other) simp_all
    finally have 1: "linked (heap c) 0 (arena c) rs x = heap c x" .
    show ?thesis
    proof (cases "rs = []")
      case True
      then show ?thesis using 1 by (simp add: h L_def link_def)
    next
      case False
      have "2 * (length rs - 1) < length used" using assms(4) False
        by (cases rs) (simp_all add: used_def)
      then have "used ! (2 * (length rs - 1)) \<in> set used" by (rule nth_mem)
      moreover have "used ! (2 * (length rs - 1)) = L" using False
        by (cases rs) (simp_all add: used_def L_def)
      ultimately have "x \<noteq> L" using x by auto
      then show ?thesis using 1 by (simp add: h link_other)
    qed
  qed
  have z: "rs = [] \<longrightarrow> first = 0" by (simp add: first_def)
  show ?thesis using r l z d f a o unfolding used_def by blast
qed

text \<open>
  Claim C10 at a frame with tag 7 and two records whose padding bytes are not zero, in an
  empty heap.
\<close>

theorem resolve_result_list_witness:
  "\<exists>c' pp' first.
      resolve_result
        \<lparr>started = True, child = 4242, fd = 4, fdres = 5,
         flags = [4 \<mapsto> O_WRONLY, 5 \<mapsto> O_RDONLY], heap = Map.empty,
         arena = [0x10, 0x20, 0x30, 0x40, 0x50]\<rparr>
        \<lparr>bytes = response_frame 7
                   [(\<lparr>ai_flags = 1, ai_family = 2, ai_socktype = 1, ai_protocol = 6,
                      ai_addrlen = 2, ai_pad = 0x5A5A5A5A, ai_addr = 0x1000, ai_canonname = 0, ai_next = 0x2000\<rparr>, [5, 6]),
                    (\<lparr>ai_flags = 1, ai_family = 2, ai_socktype = 1, ai_protocol = 6,
                      ai_addrlen = 1, ai_pad = 0x5A5A5A5A, ai_addr = 0x2100, ai_canonname = 0, ai_next = 0\<rparr>, [8])]
                 @ [],
         rd_sched = [Xfer 3, Errno EINTR], wr_sched = []\<rparr> 0
        = Returned (c', pp', 7, first)
      \<and> ai_list (heap c') first
            [(\<lparr>ai_flags = 1, ai_family = 2, ai_socktype = 1, ai_protocol = 6,
               ai_addrlen = 2, ai_pad = 0x5A5A5A5A, ai_addr = 0x1000, ai_canonname = 0, ai_next = 0x2000\<rparr>, [5, 6]),
             (\<lparr>ai_flags = 1, ai_family = 2, ai_socktype = 1, ai_protocol = 6,
               ai_addrlen = 1, ai_pad = 0x5A5A5A5A, ai_addr = 0x2100, ai_canonname = 0, ai_next = 0\<rparr>, [8])]
            [0x10, 0x20, 0x30, 0x40]
      \<and> arena c' = [0x50]
      \<and> (\<forall>x. x \<notin> set [0x10, 0x20, 0x30, 0x40] \<longrightarrow> heap c' x = None)"
  using resolve_result_list
    [of "\<lparr>bytes = response_frame 7
                   [(\<lparr>ai_flags = 1, ai_family = 2, ai_socktype = 1, ai_protocol = 6,
                      ai_addrlen = 2, ai_pad = 0x5A5A5A5A, ai_addr = 0x1000, ai_canonname = 0, ai_next = 0x2000\<rparr>, [5, 6]),
                    (\<lparr>ai_flags = 1, ai_family = 2, ai_socktype = 1, ai_protocol = 6,
                      ai_addrlen = 1, ai_pad = 0x5A5A5A5A, ai_addr = 0x2100, ai_canonname = 0, ai_next = 0\<rparr>, [8])]
                 @ [],
         rd_sched = [Xfer 3, Errno EINTR], wr_sched = []\<rparr>"
        7
        "[(\<lparr>ai_flags = 1, ai_family = 2, ai_socktype = 1, ai_protocol = 6,
           ai_addrlen = 2, ai_pad = 0x5A5A5A5A, ai_addr = 0x1000, ai_canonname = 0, ai_next = 0x2000\<rparr>, [5, 6]),
          (\<lparr>ai_flags = 1, ai_family = 2, ai_socktype = 1, ai_protocol = 6,
           ai_addrlen = 1, ai_pad = 0x5A5A5A5A, ai_addr = 0x2100, ai_canonname = 0, ai_next = 0\<rparr>, [8])]"
        "[]"
        "\<lparr>started = True, child = 4242, fd = 4, fdres = 5,
         flags = [4 \<mapsto> O_WRONLY, 5 \<mapsto> O_RDONLY], heap = Map.empty,
         arena = [0x10, 0x20, 0x30, 0x40, 0x50]\<rparr>"
        0]
  by (simp add: healthy_def wf_node_def)

section \<open>A request and its response\<close>

text \<open>
  Claim C2. With both channels empty, \<open>resolve(t, host, service)\<close>, one iteration of the
  worker and \<open>resolve_result\<close> return exactly \<open>t\<close> in \<open>*p\<close>, for every tag \<open>t\<close>: the
  worker copies the tag from the request frame to the head of the response frame and does
  nothing else with it. The host and the service are within the worker's bounds, the
  lookup's nodes are well formed, and the caller's \<open>malloc\<close> has two objects left for
  every node.
\<close>

theorem tag_round_trip:
  assumes "healthy req" and "bytes req = []" and "healthy res" and "bytes res = []"
      and "0 \<notin> set hs" and "0 \<notin> set ps" and "length hs \<le> 4095" and "length ps \<le> 4"
      and "list_all wf_node (answers gai hs ps)"
      and "2 * length (answers gai hs ps) \<le> length (arena c)"
      and "distinct (arena c)" and "0 \<notin> set (arena c)"
  shows "\<exists>req' w' c' res' first.
           resolve req t (hs @ 0 # hx) (ps @ 0 # px) = Returned req'
           \<and> resolver_step gai (w\<lparr>fd_in := req', fd_out := res\<rparr>) = Returned w'
           \<and> resolve_result c (fd_out w') junk = Returned (c', res', t, first)"
proof -
  have sh: "strlen (hs @ 0 # hx) = length hs" using assms(5) by (rule strlen_terminated)
  have sp: "strlen (ps @ 0 # px) = length ps" using assms(6) by (rule strlen_terminated)
  from resolve_healthy [OF assms(1), of "hs @ 0 # hx" "ps @ 0 # px" t] assms(7,8) sh sp
  obtain req' where
    1: "resolve req t (hs @ 0 # hx) (ps @ 0 # px) = Returned req'"
    and q: "bytes req' = request_frame t hs ps @ []" "healthy req'"
    using assms(2) by auto
  from resolver_step_healthy [of "w\<lparr>fd_in := req', fd_out := res\<rparr>" t hs ps "[]" gai]
       q assms(3,5-9)
  obtain w' where
    2: "resolver_step gai (w\<lparr>fd_in := req', fd_out := res\<rparr>) = Returned w'"
    and o: "bytes (fd_out w') = response_frame t (answers gai hs ps) @ []" "healthy (fd_out w')"
    using assms(4) by auto
  from resolve_result_frame [OF o(2) o(1) assms(9-12), of junk]
  obtain c' res' where
    3: "resolve_result c (fd_out w') junk
          = Returned (c', res', t, (if answers gai hs ps = [] then 0 else hd (arena c)))"
    by blast
  show ?thesis using 1 2 3 by blast
qed

text \<open>
  Claim C2 at the tag \<open>0x41414141\<close>, the host \<open>"a"\<close> and the service \<open>"80"\<close>, with a
  lookup that finds one address.
\<close>

theorem tag_round_trip_witness:
  "\<exists>req' w' c' res' first.
      resolve \<lparr>bytes = [], rd_sched = [Xfer 1], wr_sched = [Xfer 2, Errno EAGAIN]\<rparr> 0x41414141
        ([0x61] @ 0 # []) ([0x38, 0x30] @ 0 # []) = Returned req'
      \<and> resolver_step
           (\<lambda>h p a. GaiOk [(\<lparr>ai_flags = 1, ai_family = 2, ai_socktype = 1, ai_protocol = 6,
                               ai_addrlen = 2, ai_pad = 0x5A5A5A5A, ai_addr = 0x1000, ai_canonname = 0, ai_next = 0\<rparr>,
                             [5, 6])])
           (\<lparr>fd_in = \<lparr>bytes = [], rd_sched = [], wr_sched = []\<rparr>,
             fd_out = \<lparr>bytes = [], rd_sched = [], wr_sched = []\<rparr>,
             ptr = 0, host_len = 0, port_len = 0\<rparr>
            \<lparr>fd_in := req', fd_out := \<lparr>bytes = [], rd_sched = [Errno EINTR], wr_sched = [Xfer 5]\<rparr>\<rparr>)
         = Returned w'
      \<and> resolve_result
           \<lparr>started = True, child = 4242, fd = 4, fdres = 5,
            flags = [4 \<mapsto> O_WRONLY, 5 \<mapsto> O_RDONLY], heap = Map.empty, arena = [0x10, 0x20]\<rparr>
           (fd_out w') 0
         = Returned (c', res', 0x41414141, first)"
  using tag_round_trip
    [of "\<lparr>bytes = [], rd_sched = [Xfer 1], wr_sched = [Xfer 2, Errno EAGAIN]\<rparr>"
        "\<lparr>bytes = [], rd_sched = [Errno EINTR], wr_sched = [Xfer 5]\<rparr>"
        "[0x61]" "[0x38, 0x30]"
        "\<lambda>h p a. GaiOk [(\<lparr>ai_flags = 1, ai_family = 2, ai_socktype = 1, ai_protocol = 6,
                            ai_addrlen = 2, ai_pad = 0x5A5A5A5A, ai_addr = 0x1000, ai_canonname = 0, ai_next = 0\<rparr>,
                          [5, 6])]"
        "\<lparr>started = True, child = 4242, fd = 4, fdres = 5,
          flags = [4 \<mapsto> O_WRONLY, 5 \<mapsto> O_RDONLY], heap = Map.empty, arena = [0x10, 0x20]\<rparr>"
        "0x41414141" "[]" "[]"
        "\<lparr>fd_in = \<lparr>bytes = [], rd_sched = [], wr_sched = []\<rparr>,
          fd_out = \<lparr>bytes = [], rd_sched = [], wr_sched = []\<rparr>,
          ptr = 0, host_len = 0, port_len = 0\<rparr>"
        0]
  by (simp add: healthy_def wf_node_def answers_def)

section \<open>The order of the responses\<close>



lemma concat_frames_empty:
  assumes "\<And>r. f r \<noteq> []"
  shows "(concat (map f rs) = []) = (rs = [])"
  using assms by (cases rs) auto






text \<open>The worker alone: \<open>n\<close> requests waiting, \<open>n\<close> iterations, \<open>n\<close> responses in the same order.\<close>

lemma resolver_batch:
  assumes "healthy (fd_in w)" and "healthy (fd_out w)"
      and "bytes (fd_in w) = concat (map req_frame reqs) @ rest"
      and "list_all (valid_req gai) reqs"
  shows "\<exists>w'. resolver (length reqs) gai w = Returned w'
           \<and> bytes (fd_in w') = rest
           \<and> bytes (fd_out w') = bytes (fd_out w) @ concat (map (resp_frame gai) reqs)"
  using assms
proof (induction reqs arbitrary: w)
  case Nil
  then show ?case by simp
next
  case (Cons r reqs)
  obtain t h p where r: "r = (t, h, p)" by (cases r) auto
  have v: "0 \<notin> set h" "0 \<notin> set p" "length h \<le> 4095" "length p \<le> 4"
    "list_all wf_node (answers gai h p)"
    using Cons.prems(4) by (simp_all add: r)
  have b: "bytes (fd_in w) = request_frame t h p @ concat (map req_frame reqs) @ rest"
    using Cons.prems(3) by (simp add: r)
  from resolver_step_healthy [OF Cons.prems(1,2) b v(3,4,1,2,5)]
  obtain i out where
    1: "resolver_step gai w =
          Returned (w\<lparr>fd_in := i, ptr := t, host_len := of_nat (length h),
                      port_len := of_nat (length p), fd_out := out\<rparr>)"
    and i: "bytes i = concat (map req_frame reqs) @ rest" "healthy i"
    and out: "bytes out = bytes (fd_out w) @ response_frame t (answers gai h p)" "healthy out"
    by blast
  define w1 where "w1 = w\<lparr>fd_in := i, ptr := t, host_len := of_nat (length h),
                      port_len := of_nat (length p), fd_out := out\<rparr>"
  have "\<exists>w'. resolver (length reqs) gai w1 = Returned w'
           \<and> bytes (fd_in w') = rest
           \<and> bytes (fd_out w') = bytes (fd_out w1) @ concat (map (resp_frame gai) reqs)"
    using i out Cons.prems(4) by (intro Cons.IH) (simp_all add: w1_def)
  then show ?case using out(1) by (simp add: 1 w1_def r)
qed



section \<open>The transfer primitives on failing calls\<close>

lemma fd_read_never_fatal: "fd_read pp buf n \<noteq> Fatal m"
  by (simp add: fd_read_def fd_read_loop_no_fatal)

lemma fd_write_never_fatal: "fd_write pp buf n \<noteq> Fatal m"
  by (simp add: fd_write_def fd_write_loop_no_fatal)

text \<open>
  Claim C4. The raw read and write primitives are to return normally only after exactly
  the requested number of bytes has moved, retrying on \<open>EINTR\<close> and \<open>EAGAIN\<close>, and to
  end the process on any other failure. The code does not do so. The loop condition
  \<open>ret || (...)\<close> is true for every \<open>ret = -1\<close>, so a failure with \<open>EIO\<close> or \<open>EBADF\<close> is
  retried like a transient one and \<open>fatal\<close> is never reached (\<open>fd_read_never_fatal\<close>,
  \<open>fd_write_never_fatal\<close>); and a call that moves no byte (\<open>read\<close> at end of file)
  ends the loop with \<open>ret = 0\<close>, so the primitive returns normally with fewer bytes than
  asked for. The theorem runs \<open>fd_read\<close> for three bytes against a \<open>read\<close> that fails with
  \<open>EIO\<close>, then against a pipe that holds one byte and is at end of file, and \<open>fd_write\<close>
  against a \<open>write\<close> that fails with \<open>EBADF\<close>, moves one byte and then none.
\<close>

theorem fd_read_fd_write_at_failure:
  "fd_read \<lparr>bytes = [1, 2, 3], rd_sched = [Errno EIO], wr_sched = []\<rparr> [0, 0, 0] 3
     = Returned ([1, 2, 3], \<lparr>bytes = [], rd_sched = [], wr_sched = []\<rparr>)
   \<and> fd_read \<lparr>bytes = [1], rd_sched = [], wr_sched = []\<rparr> [0, 0, 0] 3
     = Returned ([1, 0, 0], \<lparr>bytes = [], rd_sched = [], wr_sched = []\<rparr>)
   \<and> fd_write \<lparr>bytes = [], rd_sched = [], wr_sched = [Errno EBADF, Xfer 1, Xfer 0]\<rparr> [7, 8, 9] 3
     = Returned \<lparr>bytes = [7], rd_sched = [], wr_sched = []\<rparr>"
  by (simp add: fd_read_def fd_write_def fd_read_loop.simps fd_write_loop.simps
        sys_read_def sys_write_def again_def store_def Let_def)

section \<open>The worker's self-check\<close>

text \<open>The worker enters its loop with the alarm set.\<close>

lemma resolver_start_child:
  assumes "resolver_start c p1 p2 pid = Returned (InChild i out st)"
  shows "st = Running True"
  using assms
  by (auto simp: resolver_start_def Let_def split: if_splits option.splits)

lemma self_checks_running:
  "\<forall>p \<in> set ppids. p \<noteq> 1 \<Longrightarrow> self_checks (Running True) ppids = Running True"
  by (induction ppids rule: rev_induct)
     (simp_all add: self_checks_def alarm_expires_def sigalrm_handler_def)

lemma self_checks_exited: "self_checks (Exited code) ppids = Exited code"
  by (induction ppids rule: rev_induct) (simp_all add: self_checks_def alarm_expires_def)

text \<open>
  Claim C7, as stated: once the worker's parent is no longer the original caller, the
  worker ends itself within two self-check intervals. The handler compares \<open>getppid()\<close>
  with 1, not with the caller: a worker whose caller (process 4242) is gone and which was
  adopted by process 317 is still running, with its alarm set again, after two intervals.
\<close>

theorem orphan_not_noticed_counterexample:
  "(317 :: int) \<noteq> 4242 \<and> self_checks (Running True) [317, 317] = Running True"
  by (simp add: self_checks_def alarm_expires_def sigalrm_handler_def)

text \<open>
  Claim C7, amended: the worker keeps running as long as every self-check finds a parent
  other than process 1, and it exits with \<open>EXIT_FAILURE\<close> at the first self-check that
  finds process 1 as its parent, whatever happens on the channels. A worker re-parented to
  process 1 is therefore gone within one interval.
\<close>

theorem worker_exits_under_init:
  assumes "\<forall>p \<in> set before. p \<noteq> 1"
  shows "self_checks (Running True) before = Running True
       \<and> self_checks (Running True) (before @ 1 # later) = Exited 1"
proof -
  have r: "self_checks (Running True) before = Running True"
    using assms by (rule self_checks_running)
  have "self_checks (Running True) (before @ 1 # later)
          = self_checks (alarm_expires (self_checks (Running True) before) 1) later"
    by (simp add: self_checks_def)
  also have "\<dots> = self_checks (Exited 1) later"
    by (simp add: r alarm_expires_def sigalrm_handler_def)
  finally show ?thesis using r by (simp add: self_checks_exited)
qed

text \<open>Claim C7, amended, at a caller 4242 that is alive for two intervals and then gone.\<close>

theorem worker_exits_under_init_witness:
  "(4242 :: int) \<noteq> 1
   \<and> self_checks (Running True) [4242, 4242] = Running True
   \<and> self_checks (Running True) ([4242, 4242] @ 1 # []) = Exited 1"
  using worker_exits_under_init [of "[4242, 4242]" "[]"] by simp

section \<open>The descriptor \<open>resolver_start\<close> returns\<close>

lemma resolver_start_blocking:
  assumes "resolver_start c p1 p2 pid = Returned (InParent d c')"
  shows "\<not> nonblocking c' d"
  using assms
  by (auto simp: resolver_start_def pipe_open_def nonblocking_def Let_def O_RDONLY_def
        O_WRONLY_def O_NONBLOCK_def split: if_splits option.splits)

text \<open>
  Claim C8. \<open>resolver_start\<close> is to hand the caller the read end of the result channel
  already in non-blocking mode. It never calls \<open>fd_setnonblock\<close>: the descriptor comes
  back with the flags \<open>pipe\<close> gave it, \<open>O_NONBLOCK\<close> clear (\<open>resolver_start_blocking\<close>),
  and is first made non-blocking by the last statement of \<open>resolve_result\<close>. The theorem
  runs \<open>resolver_start\<close> in a fresh process where \<open>pipe\<close> stores the descriptors 3, 4 and
  5, 6 and \<open>fork\<close> returns 4242.
\<close>

theorem resolver_start_at_failure:
  "resolver_start \<lparr>started = False, child = 0, fd = 0, fdres = 0, flags = Map.empty,
                    heap = Map.empty, arena = []\<rparr> (Some (3, 4)) (Some (5, 6)) 4242
     = Returned (InParent 5
         \<lparr>started = True, child = 4242, fd = 4, fdres = 5,
          flags = [3 \<mapsto> O_RDONLY, 4 \<mapsto> O_WRONLY, 5 \<mapsto> O_RDONLY, 6 \<mapsto> O_WRONLY],
          heap = Map.empty, arena = []\<rparr>)
   \<and> \<not> nonblocking
         \<lparr>started = True, child = 4242, fd = 4, fdres = 5,
          flags = [3 \<mapsto> O_RDONLY, 4 \<mapsto> O_WRONLY, 5 \<mapsto> O_RDONLY, 6 \<mapsto> O_WRONLY],
          heap = Map.empty, arena = []\<rparr> 5"
  by (simp add: resolver_start_def pipe_open_def nonblocking_def O_RDONLY_def O_NONBLOCK_def)

end
